theory Spec2Isabelle
  imports Complex_Main "HOL-Library.Sublist" "HOL-Library.Char_ord" "HOL-Library.List_Lexorder"
begin

section \<open>Strings\<close>

text \<open>
  Commentary texts and over numbers are Python \<open>str\<close> values, modelled as \<open>string\<close>:
  a list of characters, one \<open>char\<close> for each character of the text, so that
  \<open>take 50\<close> is the slice \<open>[:50]\<close>. \<open>str.lower\<close> is modelled on the ASCII letters; the
  classifier only looks for ASCII substrings of the lowered text.
\<close>

definition lower_char :: "char \<Rightarrow> char" where
  "lower_char c =
     (case map_of (zip ''ABCDEFGHIJKLMNOPQRSTUVWXYZ'' ''abcdefghijklmnopqrstuvwxyz'') c of
        Some d \<Rightarrow> d
      | None \<Rightarrow> c)"

definition lower :: "string \<Rightarrow> string" where
  "lower text = map lower_char text"

text \<open>Python's \<open>p in t\<close> on strings: \<open>p\<close> occurs in \<open>t\<close> as a contiguous block.\<close>

fun str_in :: "string \<Rightarrow> string \<Rightarrow> bool" where
  "str_in p [] = (p = [])"
| "str_in p (c # cs) = (prefix p (c # cs) \<or> str_in p cs)"

section \<open>Python floats\<close>

text \<open>
  A position is a Python \<open>float\<close>. Every finite binary64 value is a rational number, so
  the values are the rationals together with the two infinities and NaN. \<open>fl_lt a b\<close> is
  Python's \<open>a < b\<close> and \<open>fl_gt a b\<close> is \<open>a > b\<close>: every comparison with NaN is false.
\<close>

datatype pyfloat = NaN | NInf | Fin rat | PInf

fun fl_lt :: "pyfloat \<Rightarrow> pyfloat \<Rightarrow> bool" where
  "fl_lt (Fin a) (Fin b) = (a < b)"
| "fl_lt (Fin a) PInf = True"
| "fl_lt NInf (Fin b) = True"
| "fl_lt NInf PInf = True"
| "fl_lt _ _ = False"

definition fl_gt :: "pyfloat \<Rightarrow> pyfloat \<Rightarrow> bool" where
  "fl_gt a b = fl_lt b a"

text \<open>Python's \<open>a <= b\<close>.\<close>

definition fl_le :: "pyfloat \<Rightarrow> pyfloat \<Rightarrow> bool" where
  "fl_le a b = (fl_lt a b \<or> (a = b \<and> a \<noteq> NaN))"

subsection \<open>The builtin \<open>float\<close> on strings\<close>

text \<open>
  \<open>float(s)\<close> is part of the Python runtime, not of the program. The program's functions
  below take it as the parameter \<open>flt\<close>, a function from strings to \<open>pyfloat option\<close>
  (\<open>None\<close> when \<open>float\<close> raises \<open>ValueError\<close>), and the theorems about runs hold for
  every such function. \<open>py_float\<close> is a reference implementation used to evaluate the
  program on concrete texts. It follows the grammar of the language reference
  (surrounding whitespace, a sign, \<open>inf\<close>, \<open>infinity\<close>, \<open>nan\<close> in any case, decimal
  digits with single underscores between them, a fraction, an exponent) on ASCII
  strings and keeps the exact decimal value: it does not round to binary64, which
  matters only for texts with more than 17 significant digits or exponents beyond 308.
\<close>

definition is_space :: "char \<Rightarrow> bool" where
  "is_space c = (c \<in> set [CHR '' '', CHR 0x09, CHR 0x0A, CHR 0x0B, CHR 0x0C, CHR 0x0D])"

definition strip :: "string \<Rightarrow> string" where
  "strip s = rev (dropWhile is_space (rev (dropWhile is_space s)))"

definition digit_val :: "char \<Rightarrow> nat option" where
  "digit_val c = map_of (zip ''0123456789'' [0, 1, 2, 3, 4, 5, 6, 7, 8, 9]) c"

text \<open>A digit part: digits with single underscores between them; its digits, in order.\<close>

fun digitpart :: "string \<Rightarrow> nat list option" where
  "digitpart [] = None"
| "digitpart [c] = map_option (\<lambda>d. [d]) (digit_val c)"
| "digitpart (c # d # cs) =
     (case digit_val c of
        None \<Rightarrow> None
      | Some v \<Rightarrow>
          map_option ((#) v) (if d = CHR ''_'' then digitpart cs else digitpart (d # cs)))"

definition digits_value :: "nat list \<Rightarrow> nat" where
  "digits_value ds = foldl (\<lambda>a d. 10 * a + d) 0 ds"

text \<open>An optional leading sign: the factor and the rest of the text.\<close>

fun take_sign :: "string \<Rightarrow> int \<times> string" where
  "take_sign (c # cs) =
     (if c = CHR ''-'' then (- 1, cs) else if c = CHR ''+'' then (1, cs) else (1, c # cs))"
| "take_sign [] = (1, [])"

text \<open>The text before the first character that satisfies \<open>P\<close>, and the text after it.\<close>

definition split_at :: "(char \<Rightarrow> bool) \<Rightarrow> string \<Rightarrow> string \<times> string option" where
  "split_at P s =
     (case dropWhile (\<lambda>c. \<not> P c) s of
        [] \<Rightarrow> (s, None)
      | _ # r \<Rightarrow> (takeWhile (\<lambda>c. \<not> P c) s, Some r))"

text \<open>\<open>[digitpart] "." digitpart | digitpart ["."]\<close>: the value it denotes.\<close>

definition number_value :: "string \<Rightarrow> rat option" where
  "number_value s =
     (case split_at (\<lambda>c. c = CHR ''.'') s of
        (i, None) \<Rightarrow> map_option (\<lambda>ds. of_nat (digits_value ds)) (digitpart i)
      | (i, Some f) \<Rightarrow>
          (if f = [] then map_option (\<lambda>ds. of_nat (digits_value ds)) (digitpart i)
           else case digitpart f of
                  None \<Rightarrow> None
                | Some fs \<Rightarrow>
                    (if i = [] then Some (of_nat (digits_value fs) / 10 ^ length fs)
                     else map_option
                            (\<lambda>ds. of_nat (digits_value ds) + of_nat (digits_value fs) / 10 ^ length fs)
                            (digitpart i))))"

text \<open>\<open>[sign] digitpart\<close> after the letter \<open>e\<close>.\<close>

definition exponent_value :: "string \<Rightarrow> int option" where
  "exponent_value s =
     (case take_sign s of (sg, r) \<Rightarrow> map_option (\<lambda>ds. sg * int (digits_value ds)) (digitpart r))"

definition scale10 :: "rat \<Rightarrow> int \<Rightarrow> rat" where
  "scale10 m e = (if 0 \<le> e then m * 10 ^ nat e else m / 10 ^ nat (- e))"

definition floatnumber :: "string \<Rightarrow> rat option" where
  "floatnumber s =
     (case split_at (\<lambda>c. c = CHR ''e'' \<or> c = CHR ''E'') s of
        (m, None) \<Rightarrow> number_value m
      | (m, Some e) \<Rightarrow>
          (case (number_value m, exponent_value e) of
             (Some v, Some k) \<Rightarrow> Some (scale10 v k)
           | _ \<Rightarrow> None))"

definition py_float :: "string \<Rightarrow> pyfloat option" where
  "py_float s =
     (case take_sign (strip s) of (sg, r) \<Rightarrow>
        if lower r = ''inf'' \<or> lower r = ''infinity'' then Some (if sg < 0 then NInf else PInf)
        else if lower r = ''nan'' then Some NaN
        else map_option (\<lambda>v. Fin (of_int sg * v)) (floatnumber r))"

section \<open>Numeric coercion of the over number\<close>

text \<open>\<open>try: return float(over_num)  except (ValueError, TypeError): return -1\<close>\<close>

definition over_to_float :: "(string \<Rightarrow> pyfloat option) \<Rightarrow> string \<Rightarrow> pyfloat" where
  "over_to_float flt over_num = (case flt over_num of Some x \<Rightarrow> x | None \<Rightarrow> Fin (- 1))"

section \<open>The result classifier\<close>

definition extract_result :: "string \<Rightarrow> string" where
  "extract_result commentary_text =
     (let text = lower commentary_text in
      if str_in ''wicket'' text \<or> str_in ''out'' text then ''wicket''
      else if str_in ''no run'' text then ''dot''
      else if str_in ''1 run'' text then ''1 run''
      else if str_in ''2 run'' text then ''2 runs''
      else if str_in ''3 run'' text then ''3 runs''
      else if str_in ''four'' text \<or> str_in ''4 runs'' text then ''4''
      else if str_in ''six'' text \<or> str_in ''6 runs'' text then ''6''
      else if str_in ''wide'' text then ''wide''
      else if str_in ''no ball'' text then ''no ball''
      else if str_in ''bye'' text then ''bye''
      else if str_in ''leg bye'' text then ''leg bye''
      else ''event'')"

text \<open>
  The classification rule in the words of the specification: a table of (substrings,
  category) rows in priority order; the first row one of whose substrings occurs in the
  lowered text decides, and a text that matches no row is a generic event.
\<close>

definition priority_table :: "(string list \<times> string) list" where
  "priority_table =
     [([''wicket'', ''out''], ''wicket''),
      ([''no run''], ''dot''),
      ([''1 run''], ''1 run''),
      ([''2 run''], ''2 runs''),
      ([''3 run''], ''3 runs''),
      ([''four'', ''4 runs''], ''4''),
      ([''six'', ''6 runs''], ''6''),
      ([''wide''], ''wide''),
      ([''no ball''], ''no ball''),
      ([''bye''], ''bye''),
      ([''leg bye''], ''leg bye'')]"

fun first_match :: "(string list \<times> string) list \<Rightarrow> string \<Rightarrow> string" where
  "first_match [] text = ''event''"
| "first_match ((pats, category) # rows) text =
     (if list_ex (\<lambda>p. str_in p text) pats then category else first_match rows text)"

definition classify_spec :: "string \<Rightarrow> string" where
  "classify_spec description = first_match priority_table (lower description)"

section \<open>The page fetcher\<close>

text \<open>
  What one request does: \<open>requests.get\<close> followed by \<open>raise_for_status\<close> either yields the
  text of the response or raises a \<open>RequestException\<close>.
\<close>

datatype response = Text string | RequestException

text \<open>
  What \<open>fetch_page\<close> leaves behind: the value it returns (\<open>None\<close> for Python's \<open>None\<close>),
  the delays it has slept, in order, and the number of requests it has made.
\<close>

record fetch_result =
  returned :: "string option"
  slept :: "nat list"
  requests_made :: nat

definition max_retries :: nat where
  "max_retries = 3"

text \<open>
  The \<open>for attempt in range(max_retries)\<close> loop, from \<open>attempt\<close> on. \<open>get k\<close> is the outcome
  of the request of attempt \<open>k\<close>. When the range is exhausted the function returns
  \<open>None\<close>, as a Python function that falls off its end does.
\<close>

function fetch_loop ::
  "(nat \<Rightarrow> response) \<Rightarrow> nat \<Rightarrow> nat \<Rightarrow> nat list \<Rightarrow> fetch_result" where
  "fetch_loop get attempt retry_delay sleeps =
     (if attempt < max_retries then
        (case get attempt of
           Text t \<Rightarrow> \<lparr>returned = Some t, slept = sleeps, requests_made = attempt + 1\<rparr>
         | RequestException \<Rightarrow>
             (if attempt < max_retries - 1
              then fetch_loop get (attempt + 1) (retry_delay * 2) (sleeps @ [retry_delay])
              else \<lparr>returned = None, slept = sleeps, requests_made = attempt + 1\<rparr>))
      else \<lparr>returned = None, slept = sleeps, requests_made = attempt\<rparr>)"
  by pat_completeness auto
termination
  by (relation "measure (\<lambda>(get, attempt, retry_delay, sleeps). max_retries - attempt)") auto

declare fetch_loop.simps [simp del]

definition fetch_page :: "(nat \<Rightarrow> response) \<Rightarrow> fetch_result" where
  "fetch_page get = fetch_loop get 0 2 []"

section \<open>The poll loop\<close>

text \<open>
  An admitted commentary, the dictionary appended to \<open>new_commentaries\<close>.
\<close>

record entry =
  over :: string
  commentary :: string
  result :: string
  score :: string

text \<open>
  The variables of \<open>main\<close> that the loop reads and writes, and two traces of what the
  loop has done: \<open>admitted\<close> lists every entry ever appended to \<open>new_commentaries\<close>, in
  order, and \<open>dispatched\<close> lists the entries whose message was submitted to the
  executor (\<open>executor.submit(send_to_discord, ...)\<close>), in order.
\<close>

record vars =
  seen_commentaries :: "string set"
  highest_over_seen :: pyfloat
  last_sent_over :: "string option"
  new_commentaries :: "entry list"
  new_commentary_found :: bool
  admitted :: "entry list"
  dispatched :: "entry list"

definition init_vars :: vars where
  "init_vars =
     \<lparr>seen_commentaries = {}, highest_over_seen = Fin (- 1), last_sent_over = None,
      new_commentaries = [], new_commentary_found = False, admitted = [], dispatched = []\<rparr>"

text \<open>
  What the HTML parser hands to the loop. A section holds its over divs and its
  commentary paragraphs; an over div is the stripped text of its over-number element,
  or \<open>None\<close> when it has no such element; a paragraph is its stripped text.
\<close>

record comm_section =
  over_divs :: "string option list"
  commentary_divs :: "string list"

record document =
  current_score :: string
  commentary_sections :: "comm_section list"

definition commentary_id :: "string \<Rightarrow> string \<Rightarrow> string" where
  "commentary_id over_num commentary_text = over_num @ '' - '' @ take 50 commentary_text"

text \<open>
  The body of the inner loop (lines 171 to 194) for one pair of
  \<open>zip(over_divs, commentary_divs)\<close>; every \<open>continue\<close> returns the variables as they are.
\<close>

definition process_row ::
  "(string \<Rightarrow> pyfloat option) \<Rightarrow> string \<Rightarrow> string option \<times> string \<Rightarrow> vars \<Rightarrow> vars" where
  "process_row flt cur_score row s =
     (case fst row of
        None \<Rightarrow> s
      | Some over_num \<Rightarrow>
          (let commentary_text = snd row;
               cid = commentary_id over_num commentary_text
           in if cid \<in> seen_commentaries s then s
              else
                (let res = extract_result commentary_text
                 in if res = ''event'' \<or> over_num = ''N/A'' then s
                    else
                      (let over_float = over_to_float flt over_num;
                           s1 = (if fl_gt over_float (highest_over_seen s)
                                 then s\<lparr>highest_over_seen := over_float\<rparr> else s)
                       in if fl_lt over_float (highest_over_seen s1) then s1
                          else
                            (let e = \<lparr>over = over_num, commentary = commentary_text,
                                      result = res, score = cur_score\<rparr>
                             in s1\<lparr>new_commentaries := new_commentaries s1 @ [e],
                                   seen_commentaries := insert cid (seen_commentaries s1),
                                   new_commentary_found := True,
                                   admitted := admitted s1 @ [e]\<rparr>)))))"

definition scan_section ::
  "(string \<Rightarrow> pyfloat option) \<Rightarrow> string \<Rightarrow> comm_section \<Rightarrow> vars \<Rightarrow> vars" where
  "scan_section flt cur_score sec s =
     (if over_divs sec \<noteq> [] \<and> commentary_divs sec \<noteq> []
      then fold (process_row flt cur_score) (zip (over_divs sec) (commentary_divs sec)) s
      else s)"

definition scan_document :: "(string \<Rightarrow> pyfloat option) \<Rightarrow> document \<Rightarrow> vars \<Rightarrow> vars" where
  "scan_document flt doc s =
     fold (scan_section flt (current_score doc)) (commentary_sections doc)
       (s\<lparr>new_commentaries := [], new_commentary_found := False\<rparr>)"

text \<open>
  Python's \<open>max(items, key=...)\<close> on a non-empty list, \<open>m\<close> being the best item so far:
  an item replaces it only when its key is strictly greater.
\<close>

fun py_max :: "('a \<Rightarrow> pyfloat) \<Rightarrow> 'a \<Rightarrow> 'a list \<Rightarrow> 'a" where
  "py_max key m [] = m"
| "py_max key m (x # xs) = py_max key (if fl_gt (key x) (key m) then x else m) xs"

text \<open>The message of a notification.\<close>

definition discord_message :: "entry \<Rightarrow> string" where
  "discord_message e =
     ''Over: '' @ over e @ '' | Result: '' @ result e @ '' | Score: '' @ score e"

text \<open>
  Lines 195 to 206: the notification of the latest new commentary. The job submitted
  to the executor carries \<open>discord_message latest\<close>; the trace records \<open>latest\<close>.
\<close>

definition notify :: "(string \<Rightarrow> pyfloat option) \<Rightarrow> bool \<Rightarrow> vars \<Rightarrow> vars" where
  "notify flt discord_enabled s =
     (case new_commentaries s of
        [] \<Rightarrow> s
      | c # cs \<Rightarrow>
          (if new_commentary_found s then
             (let latest_commentary = py_max (\<lambda>x. over_to_float flt (over x)) c cs;
                  current_over = over latest_commentary
              in if last_sent_over s \<noteq> Some current_over then
                   (if discord_enabled
                    then s\<lparr>dispatched := dispatched s @ [latest_commentary]\<rparr>
                    else s)\<lparr>last_sent_over := Some current_over\<rparr>
                 else s)
           else s))"

text \<open>
  Lines 209 and 210: \<open>set(list(seen_commentaries)[-500:])\<close>. The order in which Python
  lists a set is not specified; it is the parameter \<open>set_list\<close>.
\<close>

definition evict :: "(string set \<Rightarrow> string list) \<Rightarrow> vars \<Rightarrow> vars" where
  "evict set_list s =
     (if card (seen_commentaries s) > 1000
      then (let l = set_list (seen_commentaries s)
            in s\<lparr>seen_commentaries := set (drop (length l - 500) l)\<rparr>)
      else s)"

text \<open>
  One iteration of \<open>while True\<close>. \<open>html\<close> is \<open>None\<close> when \<open>fetch_page\<close> returned nothing (or
  an empty text): the iteration then ends at \<open>continue\<close>. Otherwise it is the parsed
  page.
\<close>

definition cycle ::
  "(string \<Rightarrow> pyfloat option) \<Rightarrow> (string set \<Rightarrow> string list) \<Rightarrow> bool \<Rightarrow>
   document option \<Rightarrow> vars \<Rightarrow> vars" where
  "cycle flt set_list discord_enabled html s =
     (case html of
        None \<Rightarrow> s
      | Some doc \<Rightarrow> evict set_list (notify flt discord_enabled (scan_document flt doc s)))"

text \<open>
  The iterations of \<open>while True\<close> over the pages a run fetches, one after the other:
  from any values of the variables, and from their initial values (lines 118 to 120).
\<close>

definition run_from ::
  "(string \<Rightarrow> pyfloat option) \<Rightarrow> (string set \<Rightarrow> string list) \<Rightarrow> bool \<Rightarrow>
   vars \<Rightarrow> document option list \<Rightarrow> vars" where
  "run_from flt set_list discord_enabled s pages =
     fold (cycle flt set_list discord_enabled) pages s"

definition run ::
  "(string \<Rightarrow> pyfloat option) \<Rightarrow> (string set \<Rightarrow> string list) \<Rightarrow> bool \<Rightarrow>
   document option list \<Rightarrow> vars" where
  "run flt set_list discord_enabled pages = run_from flt set_list discord_enabled init_vars pages"

section \<open>The clock of the loop\<close>

text \<open>
  When the statements of the loop run, in the time units of \<open>time.time\<close> and
  \<open>time.sleep\<close>: \<open>now\<close> is the current time and \<open>last_fetch_time\<close> the variable of that
  name (line 121).
\<close>

record clocked =
  now :: nat
  last_fetch_time :: nat

definition min_fetch_interval :: nat where
  "min_fetch_interval = 3"

text \<open>
  Lines 125 to 129: the sleep that keeps fetches \<open>min_fetch_interval\<close> apart, and the
  start of the fetch.
\<close>

definition begin_cycle :: "clocked \<Rightarrow> clocked" where
  "begin_cycle c =
     (let time_since_last_fetch = now c - last_fetch_time c;
          c1 = (if time_since_last_fetch < min_fetch_interval
                then c\<lparr>now := now c + (min_fetch_interval - time_since_last_fetch)\<rparr>
                else c)
      in c1\<lparr>last_fetch_time := now c1\<rparr>)"

text \<open>
  Lines 204 and 205, \<open>with ThreadPoolExecutor(max_workers=1) as executor:
  executor.submit(send_to_discord, ...)\<close>. \<open>submit\<close> hands the job to the worker thread
  and returns at once; leaving the \<open>with\<close> block calls the executor's
  \<open>shutdown(wait=True)\<close>, which returns when the worker has finished the job. So the
  loop leaves the block \<open>job_time\<close> later, \<open>job_time\<close> being the time \<open>send_to_discord\<close>
  takes.
\<close>

definition executor_block :: "nat \<Rightarrow> clocked \<Rightarrow> clocked" where
  "executor_block job_time c = c\<lparr>now := now c + job_time\<rparr>"

text \<open>
  One iteration of \<open>while True\<close> with its clock. \<open>fetch_time\<close> is the time \<open>fetch_page\<close>
  takes; a failed fetch is followed by the sleep of line 134; the block of lines 204
  and 205 runs exactly when the iteration submits a job; the other statements are
  taken to cost no time.
\<close>

definition timed_cycle ::
  "(string \<Rightarrow> pyfloat option) \<Rightarrow> (string set \<Rightarrow> string list) \<Rightarrow> bool \<Rightarrow> nat \<Rightarrow> nat \<Rightarrow>
   document option \<Rightarrow> vars \<times> clocked \<Rightarrow> vars \<times> clocked" where
  "timed_cycle flt set_list discord_enabled fetch_time job_time html sc =
     (let s = fst sc;
          c1 = begin_cycle (snd sc);
          c2 = c1\<lparr>now := now c1 + fetch_time\<rparr>;
          s' = cycle flt set_list discord_enabled html s
      in case html of
           None \<Rightarrow> (s', c2\<lparr>now := now c2 + 5\<rparr>)
         | Some doc \<Rightarrow>
             (s', if dispatched s' \<noteq> dispatched s then executor_block job_time c2 else c2))"

section \<open>Notions used in the statements\<close>

text \<open>
  The condition under which the inner loop reaches line 187 for a row: the row has an
  over number, its identifier is new, it is not a generic event, its over number is not
  the text N/A, and its position is not below the watermark.
\<close>

definition admits :: "(string \<Rightarrow> pyfloat option) \<Rightarrow> vars \<Rightarrow> string option \<times> string \<Rightarrow> bool" where
  "admits flt s row =
     (case fst row of
        None \<Rightarrow> False
      | Some over_num \<Rightarrow>
          commentary_id over_num (snd row) \<notin> seen_commentaries s
          \<and> extract_result (snd row) \<noteq> ''event''
          \<and> over_num \<noteq> ''N/A''
          \<and> \<not> fl_lt (over_to_float flt over_num) (highest_over_seen s))"

text \<open>The dictionary that lines 187 to 192 build for an admitted row.\<close>

definition new_entry :: "string \<Rightarrow> string \<Rightarrow> string \<Rightarrow> entry" where
  "new_entry cur_score over_num commentary_text =
     \<lparr>over = over_num, commentary = commentary_text,
      result = extract_result commentary_text, score = cur_score\<rparr>"

text \<open>The rows of a page, in the order in which the loops visit them.\<close>

definition rows_of :: "document \<Rightarrow> (string option \<times> string) list" where
  "rows_of doc =
     concat (map (\<lambda>sec. zip (over_divs sec) (commentary_divs sec)) (commentary_sections doc))"

text \<open>The parsed position of an admitted entry, the key of line 196.\<close>

definition position :: "(string \<Rightarrow> pyfloat option) \<Rightarrow> entry \<Rightarrow> pyfloat" where
  "position flt e = over_to_float flt (over e)"

text \<open>
  The invariant behind the order of admissions: the watermark is a number, no admitted
  position lies above it, and no admitted position is smaller than an earlier one.
\<close>

definition ordered :: "(string \<Rightarrow> pyfloat option) \<Rightarrow> vars \<Rightarrow> bool" where
  "ordered flt s \<longleftrightarrow>
     highest_over_seen s \<noteq> NaN
     \<and> list_all (\<lambda>e. \<not> fl_lt (highest_over_seen s) (position flt e)) (admitted s)
     \<and> sorted_wrt (\<lambda>a b. \<not> fl_lt b a) (map (position flt) (admitted s))"

text \<open>
  A later state of the loop, as far as admission goes: the seen set has not lost a key
  and the watermark has not fallen.
\<close>

definition grows :: "vars \<Rightarrow> vars \<Rightarrow> bool" where
  "grows s t \<longleftrightarrow>
     seen_commentaries s \<subseteq> seen_commentaries t
     \<and> (highest_over_seen t = highest_over_seen s \<or> fl_lt (highest_over_seen s) (highest_over_seen t))"

text \<open>
  The last sent over is the over text of the last event dispatched, or \<open>None\<close> when
  nothing has been dispatched.
\<close>

definition tracks :: "vars \<Rightarrow> bool" where
  "tracks s \<longleftrightarrow>
     last_sent_over s = (if dispatched s = [] then None else Some (over (last (dispatched s))))"

section \<open>Example pages\<close>

text \<open>
  The page of the end-to-end scenario: one row, position 49.2, "FOUR! cracking shot",
  with the score "NZ 251/4 (49.2)".
\<close>

definition page_four :: document where
  "page_four =
     \<lparr>current_score = ''NZ 251/4 (49.2)'',
      commentary_sections =
        [\<lparr>over_divs = [Some ''49.2''], commentary_divs = [''FOUR! cracking shot'']\<rparr>]\<rparr>"

text \<open>The page one ball later: the newest row first, the older rows below it.\<close>

definition page_six :: document where
  "page_six =
     \<lparr>current_score = ''NZ 257/4 (49.3)'',
      commentary_sections =
        [\<lparr>over_divs = [Some ''49.3'', Some ''49.2'', Some ''49.1''],
          commentary_divs = [''SIX! over long on'', ''FOUR! cracking shot'', ''no run, defended'']\<rparr>]\<rparr>"

text \<open>The first page again, with the over number of its row written 49.20.\<close>

definition page_four_rewritten :: document where
  "page_four_rewritten =
     \<lparr>current_score = ''NZ 251/4 (49.2)'',
      commentary_sections =
        [\<lparr>over_divs = [Some ''49.20''], commentary_divs = [''FOUR! cracking shot'']\<rparr>]\<rparr>"

text \<open>
  A first page whose row has an over-number element with no text and the commentary
  "OUT! clean bowled".
\<close>

definition page_no_over :: document where
  "page_no_over =
     \<lparr>current_score = ''NZ 0/1 (0.1)'',
      commentary_sections =
        [\<lparr>over_divs = [Some ''''], commentary_divs = [''OUT! clean bowled'']\<rparr>]\<rparr>"

text \<open>A later page whose row carries the over text nan, which \<open>float\<close> parses to NaN.\<close>

definition page_nan :: document where
  "page_nan =
     \<lparr>current_score = ''NZ 257/4 (49.3)'',
      commentary_sections =
        [\<lparr>over_divs = [Some ''nan''], commentary_divs = [''SIX! over long on'']\<rparr>]\<rparr>"

text \<open>One order in which a set of strings can be listed: the sorted one.\<close>

definition set_order :: "string set \<Rightarrow> string list" where
  "set_order S = sorted_list_of_set S"

section \<open>Properties of the classifier\<close>

lemma str_in_iff: "str_in p t \<longleftrightarrow> (\<exists>a b. t = a @ p @ b)"
proof (induction t)
  case Nil
  then show ?case by auto
next
  case (Cons c cs)
  show ?case
  proof
    assume "str_in p (c # cs)"
    then consider "prefix p (c # cs)" | "str_in p cs" by auto
    then show "\<exists>a b. c # cs = a @ p @ b"
    proof cases
      case 1
      then obtain b where "c # cs = p @ b" by (auto simp: prefix_def)
      then have "c # cs = [] @ p @ b" by simp
      then show ?thesis by blast
    next
      case 2
      with Cons.IH obtain a b where "cs = a @ p @ b" by blast
      then have "c # cs = (c # a) @ p @ b" by simp
      then show ?thesis by blast
    qed
  next
    assume "\<exists>a b. c # cs = a @ p @ b"
    then obtain a b where ab: "c # cs = a @ p @ b" by blast
    show "str_in p (c # cs)"
    proof (cases a)
      case Nil
      with ab have "prefix p (c # cs)" by (simp add: prefix_def)
      then show ?thesis by simp
    next
      case (Cons d ds)
      with ab have "cs = ds @ p @ b" by simp
      with Cons.IH have "str_in p cs" by blast
      then show ?thesis by simp
    qed
  qed
qed

lemma str_in_part: "str_in (u @ p) t \<Longrightarrow> str_in p t"
proof -
  assume "str_in (u @ p) t"
  then obtain a b where "t = a @ (u @ p) @ b" by (auto simp: str_in_iff)
  then have "t = (a @ u) @ p @ b" by simp
  then show ?thesis unfolding str_in_iff by blast
qed

lemma leg_bye_has_bye: "str_in ''leg bye'' t \<Longrightarrow> str_in ''bye'' t"
  using str_in_part [of "''leg ''" "''bye''" t] by simp

lemma extract_result_refines: "extract_result t = classify_spec t"
  by (simp add: extract_result_def classify_spec_def priority_table_def Let_def)

lemma extract_result_never_leg_bye: "extract_result t \<noteq> ''leg bye''"
  using leg_bye_has_bye [of "lower t"] by (simp add: extract_result_def Let_def)

text \<open>
  Claim C4. The classifier lower-cases its input and tests the substrings in the fixed
  priority order wicket/out, no run, 1 run, 2 run, 3 run, four/4 runs, six/6 runs, wide,
  no ball, bye, leg bye, else event, the first match winning: it agrees with the
  priority table on every text. So "OUT! clean bowled" is a wicket, "FOUR! cracking
  shot" a four, "1 run taken" a single, "just a dot ball, no run" a dot ball and
  "leg bye taken" a bye; no text at all is classified as a leg bye.
\<close>

theorem classifier_priority:
  "extract_result t = classify_spec t
   \<and> extract_result ''OUT! clean bowled'' = ''wicket''
   \<and> extract_result ''FOUR! cracking shot'' = ''4''
   \<and> extract_result ''1 run taken'' = ''1 run''
   \<and> extract_result ''just a dot ball, no run'' = ''dot''
   \<and> extract_result ''leg bye taken'' = ''bye''
   \<and> extract_result u \<noteq> ''leg bye''"
proof -
  have "extract_result ''OUT! clean bowled'' = ''wicket''"
    by (simp add: extract_result_def lower_def lower_char_def Let_def)
  moreover have "extract_result ''FOUR! cracking shot'' = ''4''"
    by (simp add: extract_result_def lower_def lower_char_def Let_def)
  moreover have "extract_result ''1 run taken'' = ''1 run''"
    by (simp add: extract_result_def lower_def lower_char_def Let_def)
  moreover have "extract_result ''just a dot ball, no run'' = ''dot''"
    by (simp add: extract_result_def lower_def lower_char_def Let_def)
  moreover have "extract_result ''leg bye taken'' = ''bye''"
    by (simp add: extract_result_def lower_def lower_char_def Let_def)
  ultimately show ?thesis
    using extract_result_refines [of t] extract_result_never_leg_bye [of u] by blast
qed

section \<open>Properties of the poll loop\<close>

subsection \<open>Comparisons of floats\<close>

lemma fl_lt_irrefl: "\<not> fl_lt a a"
  by (cases a) auto

lemma fl_lt_trans: "fl_lt a b \<Longrightarrow> fl_lt b c \<Longrightarrow> fl_lt a c"
  by (cases a; cases b; cases c) auto

lemma fl_lt_asym: "fl_lt a b \<Longrightarrow> \<not> fl_lt b a"
  by (cases a; cases b) auto

lemma fl_lt_not_NaN: "fl_lt a b \<Longrightarrow> a \<noteq> NaN \<and> b \<noteq> NaN"
  by (cases a; cases b) auto

lemma fl_total: "a \<noteq> NaN \<Longrightarrow> b \<noteq> NaN \<Longrightarrow> fl_lt a b \<or> a = b \<or> fl_lt b a"
  by (cases a; cases b) auto

subsection \<open>When a row is admitted\<close>

lemma process_row_skip: "\<not> admits flt s row \<Longrightarrow> process_row flt sc row s = s"
  by (auto simp: admits_def process_row_def Let_def fl_gt_def fl_lt_irrefl dest: fl_lt_asym split: option.splits)

lemma process_row_admit:
  assumes "admits flt s (Some over_num, text)"
  shows "process_row flt sc (Some over_num, text) s =
     s\<lparr>highest_over_seen :=
          (if fl_lt (highest_over_seen s) (over_to_float flt over_num)
           then over_to_float flt over_num else highest_over_seen s),
       new_commentaries := new_commentaries s @ [new_entry sc over_num text],
       seen_commentaries := insert (commentary_id over_num text) (seen_commentaries s),
       new_commentary_found := True,
       admitted := admitted s @ [new_entry sc over_num text]\<rparr>"
  using assms
  by (auto simp: admits_def process_row_def Let_def fl_gt_def new_entry_def fl_lt_irrefl dest: fl_lt_asym)


lemma admits_cong:
  "seen_commentaries s' = seen_commentaries s \<Longrightarrow> highest_over_seen s' = highest_over_seen s \<Longrightarrow>
   admits flt s' row = admits flt s row"
  by (simp add: admits_def split: option.splits)

lemma process_row_cases:
  "process_row flt sc row s = s \<or>
   (\<exists>over_num. fst row = Some over_num \<and> admits flt s row \<and>
      process_row flt sc row s =
        s\<lparr>highest_over_seen :=
             (if fl_lt (highest_over_seen s) (over_to_float flt over_num)
              then over_to_float flt over_num else highest_over_seen s),
          new_commentaries := new_commentaries s @ [new_entry sc over_num (snd row)],
          seen_commentaries := insert (commentary_id over_num (snd row)) (seen_commentaries s),
          new_commentary_found := True,
          admitted := admitted s @ [new_entry sc over_num (snd row)]\<rparr>)"
proof (cases "admits flt s row")
  case False
  then show ?thesis by (simp add: process_row_skip)
next
  case True
  then obtain over_num where o: "fst row = Some over_num"
    by (auto simp: admits_def split: option.splits)
  then have "row = (Some over_num, snd row)" by (cases row) simp
  with True process_row_admit [of flt s over_num "snd row" sc] o show ?thesis
    by auto
qed

lemma scan_section_fold:
  "scan_section flt sc sec s = fold (process_row flt sc) (zip (over_divs sec) (commentary_divs sec)) s"
  by (auto simp: scan_section_def)

lemma scan_document_fold:
  "scan_document flt doc s =
     fold (process_row flt (current_score doc)) (rows_of doc)
       (s\<lparr>new_commentaries := [], new_commentary_found := False\<rparr>)"
proof -
  have "fold (scan_section flt sc) secs t =
        fold (process_row flt sc) (concat (map (\<lambda>sec. zip (over_divs sec) (commentary_divs sec)) secs)) t"
    for sc secs t
    by (induction secs arbitrary: t) (simp_all add: scan_section_fold)
  then show ?thesis by (simp add: scan_document_def rows_of_def)
qed

subsection \<open>The watermark never falls\<close>

lemma rise_trans:
  "b = a \<or> fl_lt a b \<Longrightarrow> c = b \<or> fl_lt b c \<Longrightarrow> c = a \<or> fl_lt a c"
  using fl_lt_trans by blast

lemma process_row_watermark:
  "highest_over_seen (process_row flt sc row s) = highest_over_seen s
   \<or> fl_lt (highest_over_seen s) (highest_over_seen (process_row flt sc row s))"
  using process_row_cases [of flt sc row s] by auto

lemma process_row_seen_mono: "seen_commentaries s \<subseteq> seen_commentaries (process_row flt sc row s)"
  using process_row_cases [of flt sc row s] by auto

lemma grows_refl: "grows s s"
  by (simp add: grows_def)

lemma grows_trans: "grows s t \<Longrightarrow> grows t u \<Longrightarrow> grows s u"
  unfolding grows_def using rise_trans by blast

lemma grows_process_row: "grows s (process_row flt sc row s)"
  using process_row_watermark [of flt sc row s] process_row_seen_mono [of s flt sc row]
  by (simp add: grows_def)

lemma grows_fold_rows: "grows s (fold (process_row flt sc) rows s)"
proof (induction rows arbitrary: s)
  case Nil
  show ?case by (simp add: grows_refl)
next
  case (Cons r rs)
  have "grows s (process_row flt sc r s)" by (rule grows_process_row)
  moreover have "grows (process_row flt sc r s) (fold (process_row flt sc) rs (process_row flt sc r s))"
    by (rule Cons.IH)
  ultimately have "grows s (fold (process_row flt sc) rs (process_row flt sc r s))"
    by (rule grows_trans)
  then show ?case by simp
qed

lemma notify_frame:
  "seen_commentaries (notify flt en s) = seen_commentaries s
   \<and> highest_over_seen (notify flt en s) = highest_over_seen s
   \<and> admitted (notify flt en s) = admitted s
   \<and> new_commentaries (notify flt en s) = new_commentaries s
   \<and> new_commentary_found (notify flt en s) = new_commentary_found s"
  by (simp add: notify_def Let_def split: list.splits)

lemma evict_frame:
  "highest_over_seen (evict sl s) = highest_over_seen s
   \<and> admitted (evict sl s) = admitted s
   \<and> dispatched (evict sl s) = dispatched s
   \<and> last_sent_over (evict sl s) = last_sent_over s
   \<and> new_commentaries (evict sl s) = new_commentaries s
   \<and> new_commentary_found (evict sl s) = new_commentary_found s"
  by (simp add: evict_def Let_def)

lemma fold_rows_frame:
  "dispatched (fold (process_row flt sc) rows s) = dispatched s
   \<and> last_sent_over (fold (process_row flt sc) rows s) = last_sent_over s"
proof (induction rows arbitrary: s)
  case Nil
  show ?case by simp
next
  case (Cons r rs)
  have "dispatched (process_row flt sc r s) = dispatched s
        \<and> last_sent_over (process_row flt sc r s) = last_sent_over s"
    using process_row_cases [of flt sc r s] by auto
  with Cons.IH [of "process_row flt sc r s"] show ?case by simp
qed

lemma scan_document_frame:
  "dispatched (scan_document flt doc s) = dispatched s
   \<and> last_sent_over (scan_document flt doc s) = last_sent_over s"
  by (simp add: scan_document_fold fold_rows_frame)

lemma scan_document_watermark:
  "highest_over_seen (scan_document flt doc s) = highest_over_seen s
   \<or> fl_lt (highest_over_seen s) (highest_over_seen (scan_document flt doc s))"
  using grows_fold_rows [of "s\<lparr>new_commentaries := [], new_commentary_found := False\<rparr>"
      flt "current_score doc" "rows_of doc"]
  by (simp add: scan_document_fold grows_def)

lemma cycle_watermark:
  "highest_over_seen (cycle flt sl en html s) = highest_over_seen s
   \<or> fl_lt (highest_over_seen s) (highest_over_seen (cycle flt sl en html s))"
  using scan_document_watermark
  by (cases html) (simp_all add: cycle_def evict_frame notify_frame)

lemma run_from_watermark:
  "highest_over_seen (run_from flt sl en s pages) = highest_over_seen s
   \<or> fl_lt (highest_over_seen s) (highest_over_seen (run_from flt sl en s pages))"
proof (induction pages arbitrary: s)
  case Nil
  show ?case by (simp add: run_from_def)
next
  case (Cons p ps)
  have eq: "run_from flt sl en s (p # ps) = run_from flt sl en (cycle flt sl en p s) ps"
    by (simp add: run_from_def)
  show ?case
    unfolding eq
    by (rule rise_trans [OF cycle_watermark [of flt sl en p s] Cons.IH [of "cycle flt sl en p s"]])
qed

lemma run_from_append:
  "run_from flt sl en s (ps @ qs) = run_from flt sl en (run_from flt sl en s ps) qs"
  by (simp add: run_from_def)

subsection \<open>Admitted positions are ordered\<close>

lemma ordered_cong:
  "highest_over_seen t = highest_over_seen s \<Longrightarrow> admitted t = admitted s \<Longrightarrow>
   ordered flt t = ordered flt s"
  by (simp add: ordered_def)

lemma ordered_init: "ordered flt init_vars"
  by (simp add: ordered_def init_vars_def)

lemma ordered_admit:
  assumes inv: "ordered flt s"
    and notlt: "\<not> fl_lt p (highest_over_seen s)"
    and pe: "position flt e = p"
    and h': "h' = (if fl_lt (highest_over_seen s) p then p else highest_over_seen s)"
  shows "ordered flt
           (s\<lparr>highest_over_seen := h',
              new_commentaries := n, seen_commentaries := k, new_commentary_found := b,
              admitted := admitted s @ [e]\<rparr>)"
proof -
  let ?h = "highest_over_seen s"
  from inv have hn: "?h \<noteq> NaN"
    by (simp add: ordered_def)
  from inv have below: "\<not> fl_lt ?h (position flt x)" if "x \<in> set (admitted s)" for x
    using that by (simp add: ordered_def list_all_iff)
  from inv have srt: "sorted_wrt (\<lambda>a b. \<not> fl_lt b a) (map (position flt) (admitted s))"
    by (simp add: ordered_def)
  have h'n: "h' \<noteq> NaN"
  proof (cases "fl_lt ?h p")
    case True
    then have "p \<noteq> NaN" using fl_lt_not_NaN by blast
    with True h' show ?thesis by simp
  next
    case False
    with h' hn show ?thesis by simp
  qed
  have old: "\<not> fl_lt h' (position flt x)" if "x \<in> set (admitted s)" for x
  proof (cases "fl_lt ?h p")
    case True
    show ?thesis
    proof
      assume "fl_lt h' (position flt x)"
      with True h' have "fl_lt p (position flt x)" by simp
      with True have "fl_lt ?h (position flt x)" by (rule fl_lt_trans)
      with below [OF that] show False by simp
    qed
  next
    case False
    with below [OF that] h' show ?thesis by simp
  qed
  have new: "\<not> fl_lt h' p"
    using h' notlt by (cases "fl_lt ?h p") (simp_all add: fl_lt_irrefl)
  have after: "\<not> fl_lt p (position flt x)" if "x \<in> set (admitted s)" for x
  proof
    assume lt: "fl_lt p (position flt x)"
    then have "position flt x \<noteq> NaN" using fl_lt_not_NaN by blast
    with hn fl_total [of "position flt x" ?h] below [OF that]
    consider "fl_lt (position flt x) ?h" | "position flt x = ?h" by blast
    then have "fl_lt p ?h"
    proof cases
      case 1
      with lt show ?thesis by (rule fl_lt_trans)
    next
      case 2
      with lt show ?thesis by simp
    qed
    with notlt show False by simp
  qed
  have 1: "list_all (\<lambda>x. \<not> fl_lt h' (position flt x)) (admitted s @ [e])"
    using old new pe by (simp add: list_all_iff)
  have 2: "sorted_wrt (\<lambda>a b. \<not> fl_lt b a) (map (position flt) (admitted s @ [e]))"
    using srt after pe by (simp add: sorted_wrt_append)
  show ?thesis
    using h'n 1 2 by (simp add: ordered_def)
qed

lemma ordered_process_row: "ordered flt s \<Longrightarrow> ordered flt (process_row flt sc row s)"
proof -
  assume inv: "ordered flt s"
  from process_row_cases [of flt sc row s] show ?thesis
  proof
    assume "process_row flt sc row s = s"
    with inv show ?thesis by simp
  next
    assume "\<exists>over_num. fst row = Some over_num \<and> admits flt s row \<and>
      process_row flt sc row s =
        s\<lparr>highest_over_seen :=
             (if fl_lt (highest_over_seen s) (over_to_float flt over_num)
              then over_to_float flt over_num else highest_over_seen s),
          new_commentaries := new_commentaries s @ [new_entry sc over_num (snd row)],
          seen_commentaries := insert (commentary_id over_num (snd row)) (seen_commentaries s),
          new_commentary_found := True,
          admitted := admitted s @ [new_entry sc over_num (snd row)]\<rparr>"
    then obtain over_num where o: "fst row = Some over_num" and a: "admits flt s row"
      and eq: "process_row flt sc row s =
        s\<lparr>highest_over_seen :=
             (if fl_lt (highest_over_seen s) (over_to_float flt over_num)
              then over_to_float flt over_num else highest_over_seen s),
          new_commentaries := new_commentaries s @ [new_entry sc over_num (snd row)],
          seen_commentaries := insert (commentary_id over_num (snd row)) (seen_commentaries s),
          new_commentary_found := True,
          admitted := admitted s @ [new_entry sc over_num (snd row)]\<rparr>"
      by blast
    from a o have notlt: "\<not> fl_lt (over_to_float flt over_num) (highest_over_seen s)"
      by (simp add: admits_def)
    have pe: "position flt (new_entry sc over_num (snd row)) = over_to_float flt over_num"
      by (simp add: position_def new_entry_def)
    show ?thesis
      unfolding eq by (rule ordered_admit [OF inv notlt pe refl])
  qed
qed

lemma ordered_fold_rows: "ordered flt s \<Longrightarrow> ordered flt (fold (process_row flt sc) rows s)"
  by (induction rows arbitrary: s) (simp_all add: ordered_process_row)

lemma ordered_scan_document: "ordered flt s \<Longrightarrow> ordered flt (scan_document flt doc s)"
proof -
  assume "ordered flt s"
  then have "ordered flt (s\<lparr>new_commentaries := [], new_commentary_found := False\<rparr>)"
    by (simp add: ordered_def)
  then show ?thesis unfolding scan_document_fold by (rule ordered_fold_rows)
qed

lemma ordered_cycle: "ordered flt s \<Longrightarrow> ordered flt (cycle flt sl en html s)"
proof (cases html)
  case None
  assume "ordered flt s"
  with None show ?thesis by (simp add: cycle_def)
next
  case (Some doc)
  assume "ordered flt s"
  then have "ordered flt (scan_document flt doc s)" by (rule ordered_scan_document)
  then have "ordered flt (notify flt en (scan_document flt doc s))"
    by (simp add: ordered_def notify_frame)
  then have "ordered flt (evict sl (notify flt en (scan_document flt doc s)))"
    by (simp add: ordered_def evict_frame)
  with Some show ?thesis by (simp add: cycle_def)
qed

lemma ordered_run_from: "ordered flt s \<Longrightarrow> ordered flt (run_from flt sl en s pages)"
proof (induction pages arbitrary: s)
  case Nil
  then show ?case by (simp add: run_from_def)
next
  case (Cons p ps)
  have eq: "run_from flt sl en s (p # ps) = run_from flt sl en (cycle flt sl en p s) ps"
    by (simp add: run_from_def)
  from Cons.prems have "ordered flt (cycle flt sl en p s)" by (rule ordered_cycle)
  then show ?case unfolding eq by (rule Cons.IH)
qed

lemma ordered_run: "ordered flt (run flt sl en pages)"
  unfolding run_def by (rule ordered_run_from [OF ordered_init])

lemma run_append: "run flt sl en (ps @ qs) = run_from flt sl en (run flt sl en ps) qs"
  by (simp add: run_def run_from_append)

lemma below_watermark_skipped:
  "fl_lt (over_to_float flt over_num) (highest_over_seen s) \<Longrightarrow>
   process_row flt sc (Some over_num, text) s = s"
  by (rule process_row_skip) (simp add: admits_def)

subsection \<open>Evaluating the example pages\<close>

lemmas float_defs = py_float_def strip_def is_space_def lower_def lower_char_def floatnumber_def
  split_at_def number_value_def digit_val_def digits_value_def exponent_value_def scale10_def

lemma py_float_49_2: "py_float ''49.2'' = Some (Fin (246 / 5))"
  by (simp add: float_defs)

lemma py_float_49_3: "py_float ''49.3'' = Some (Fin (493 / 10))"
  by (simp add: float_defs)

lemma py_float_49_1: "py_float ''49.1'' = Some (Fin (491 / 10))"
  by (simp add: float_defs)

lemma extract_result_four: "extract_result ''FOUR! cracking shot'' = ''4''"
  by (simp add: extract_result_def lower_def lower_char_def Let_def)

lemma extract_result_six: "extract_result ''SIX! over long on'' = ''6''"
  by (simp add: extract_result_def lower_def lower_char_def Let_def)

lemma extract_result_dot: "extract_result ''no run, defended'' = ''dot''"
  by (simp add: extract_result_def lower_def lower_char_def Let_def)

lemmas loop_defs = run_def run_from_def cycle_def scan_document_def scan_section_def
  process_row_def notify_def evict_def init_vars_def commentary_id_def over_to_float_def
  fl_gt_def Let_def

lemma run_page_four:
  "run py_float sl en [Some page_four] =
     \<lparr>seen_commentaries = {''49.2 - FOUR! cracking shot''},
      highest_over_seen = Fin (246 / 5),
      last_sent_over = Some ''49.2'',
      new_commentaries = [\<lparr>over = ''49.2'', commentary = ''FOUR! cracking shot'', result = ''4'', score = ''NZ 251/4 (49.2)''\<rparr>],
      new_commentary_found = True,
      admitted = [\<lparr>over = ''49.2'', commentary = ''FOUR! cracking shot'', result = ''4'', score = ''NZ 251/4 (49.2)''\<rparr>],
      dispatched = (if en then [\<lparr>over = ''49.2'', commentary = ''FOUR! cracking shot'', result = ''4'', score = ''NZ 251/4 (49.2)''\<rparr>] else [])\<rparr>"
  by (simp add: loop_defs page_four_def py_float_49_2 extract_result_four)


lemma run_page_four_six:
  "run py_float sl en [Some page_four, None, Some page_six] =
     \<lparr>seen_commentaries = {''49.3 - SIX! over long on'', ''49.2 - FOUR! cracking shot''},
      highest_over_seen = Fin (493 / 10),
      last_sent_over = Some ''49.3'',
      new_commentaries = [\<lparr>over = ''49.3'', commentary = ''SIX! over long on'', result = ''6'', score = ''NZ 257/4 (49.3)''\<rparr>],
      new_commentary_found = True,
      admitted = [\<lparr>over = ''49.2'', commentary = ''FOUR! cracking shot'', result = ''4'', score = ''NZ 251/4 (49.2)''\<rparr>,
                  \<lparr>over = ''49.3'', commentary = ''SIX! over long on'', result = ''6'', score = ''NZ 257/4 (49.3)''\<rparr>],
      dispatched = (if en then
                 [\<lparr>over = ''49.2'', commentary = ''FOUR! cracking shot'', result = ''4'', score = ''NZ 251/4 (49.2)''\<rparr>,
                  \<lparr>over = ''49.3'', commentary = ''SIX! over long on'', result = ''6'', score = ''NZ 257/4 (49.3)''\<rparr>] else [])\<rparr>"
proof -
  have "run py_float sl en [Some page_four, None, Some page_six]
        = cycle py_float sl en (Some page_six) (run py_float sl en [Some page_four])"
    by (simp add: run_def run_from_def cycle_def)
  then show ?thesis
    unfolding run_page_four
    by (simp add: cycle_def scan_document_def scan_section_def process_row_def notify_def evict_def
        commentary_id_def over_to_float_def fl_gt_def Let_def page_six_def
        py_float_49_1 py_float_49_2 py_float_49_3
        extract_result_four extract_result_six extract_result_dot insert_commute)
qed

lemma py_float_nan: "py_float ''nan'' = Some NaN"
  by (simp add: float_defs)

lemma run_page_nan:
  "run py_float sl en [Some page_four, Some page_nan] =
     \<lparr>seen_commentaries = {''nan - SIX! over long on'', ''49.2 - FOUR! cracking shot''},
      highest_over_seen = Fin (246 / 5),
      last_sent_over = Some ''nan'',
      new_commentaries = [\<lparr>over = ''nan'', commentary = ''SIX! over long on'', result = ''6'', score = ''NZ 257/4 (49.3)''\<rparr>],
      new_commentary_found = True,
      admitted = [\<lparr>over = ''49.2'', commentary = ''FOUR! cracking shot'', result = ''4'', score = ''NZ 251/4 (49.2)''\<rparr>,
                  \<lparr>over = ''nan'', commentary = ''SIX! over long on'', result = ''6'', score = ''NZ 257/4 (49.3)''\<rparr>],
      dispatched = (if en then
                 [\<lparr>over = ''49.2'', commentary = ''FOUR! cracking shot'', result = ''4'', score = ''NZ 251/4 (49.2)''\<rparr>,
                  \<lparr>over = ''nan'', commentary = ''SIX! over long on'', result = ''6'', score = ''NZ 257/4 (49.3)''\<rparr>] else [])\<rparr>"
proof -
  have "run py_float sl en [Some page_four, Some page_nan]
        = cycle py_float sl en (Some page_nan) (run py_float sl en [Some page_four])"
    by (simp add: run_def run_from_def)
  then show ?thesis
    unfolding run_page_four
    by (simp add: cycle_def scan_document_def scan_section_def process_row_def notify_def evict_def
        commentary_id_def over_to_float_def fl_gt_def Let_def page_nan_def
        py_float_49_2 py_float_nan extract_result_six insert_commute)
qed

subsection \<open>Monotonicity of a run\<close>

lemma fl_le_iff: "a \<noteq> NaN \<Longrightarrow> b \<noteq> NaN \<Longrightarrow> fl_le a b \<longleftrightarrow> \<not> fl_lt b a"
  by (cases a; cases b) (auto simp: fl_le_def)

lemma run_watermark_le:
  "fl_le (highest_over_seen (run flt sl en ps)) (highest_over_seen (run flt sl en (ps @ qs)))"
proof -
  have n: "highest_over_seen (run flt sl en ps) \<noteq> NaN"
    using ordered_run [of flt sl en ps] by (simp add: ordered_def)
  from run_from_watermark [of flt sl en "run flt sl en ps" qs] n show ?thesis
    by (auto simp: run_append fl_le_def)
qed

lemma run_admitted_sorted:
  "sorted_wrt (\<lambda>a b. \<not> fl_lt b a) (map (position flt) (admitted (run flt sl en ps)))"
  using ordered_run [of flt sl en ps] by (simp add: ordered_def)

lemma run_admitted_sorted_le:
  assumes "list_all (\<lambda>e. position flt e \<noteq> NaN) (admitted (run flt sl en ps))"
  shows "sorted_wrt fl_le (map (position flt) (admitted (run flt sl en ps)))"
proof (rule sorted_wrt_mono_rel [OF _ run_admitted_sorted])
  fix x y
  assume "x \<in> set (map (position flt) (admitted (run flt sl en ps)))"
    and "y \<in> set (map (position flt) (admitted (run flt sl en ps)))"
    and "\<not> fl_lt y x"
  with assms show "fl_le x y" by (auto simp: list_all_iff fl_le_iff)
qed

lemma run_admitted_numbers_sorted:
  "sorted_wrt fl_le (filter (\<lambda>p. p \<noteq> NaN) (map (position flt) (admitted (run flt sl en ps))))"
proof -
  have "sorted_wrt (\<lambda>a b. \<not> fl_lt b a)
          (filter (\<lambda>p. p \<noteq> NaN) (map (position flt) (admitted (run flt sl en ps))))"
    using run_admitted_sorted [of flt sl en ps] by (rule sorted_wrt_filter)
  then show ?thesis
  proof (rule sorted_wrt_mono_rel [rotated])
    fix x y
    assume "x \<in> set (filter (\<lambda>p. p \<noteq> NaN) (map (position flt) (admitted (run flt sl en ps))))"
      and "y \<in> set (filter (\<lambda>p. p \<noteq> NaN) (map (position flt) (admitted (run flt sl en ps))))"
      and "\<not> fl_lt y x"
    then show "fl_le x y" by (simp add: fl_le_iff)
  qed
qed

text \<open>
  Claim C1, as amended. The watermark never falls: a processed row leaves it unchanged
  or raises it, and in a run it is at most what it is after any longer run. No admitted
  event has a position smaller than that of an event admitted before it, in the whole
  run, and the admitted positions other than NaN are non-decreasing in admission order
  (each is \<open><=\<close> the next in Python's sense); so are all of them when none is NaN. A
  row whose position is below the watermark when it is evaluated changes nothing: it
  is not appended to the new commentaries and its identifier is not added to the seen
  set.
\<close>

theorem watermark_monotone:
  "(highest_over_seen (process_row flt sc row s) = highest_over_seen s
      \<or> fl_lt (highest_over_seen s) (highest_over_seen (process_row flt sc row s)))
   \<and> fl_le (highest_over_seen (run flt sl en ps)) (highest_over_seen (run flt sl en (ps @ qs)))
   \<and> sorted_wrt (\<lambda>a b. \<not> fl_lt b a) (map (position flt) (admitted (run flt sl en ps)))
   \<and> sorted_wrt fl_le (filter (\<lambda>p. p \<noteq> NaN) (map (position flt) (admitted (run flt sl en ps))))
   \<and> (list_all (\<lambda>e. position flt e \<noteq> NaN) (admitted (run flt sl en ps)) \<longrightarrow>
        sorted_wrt fl_le (map (position flt) (admitted (run flt sl en ps))))
   \<and> (fl_lt (over_to_float flt over_num) (highest_over_seen s) \<longrightarrow>
        process_row flt sc (Some over_num, text) s = s)"
  using process_row_watermark [of flt sc row s] run_watermark_le [of flt sl en ps qs]
    run_admitted_sorted [of flt sl en ps] run_admitted_sorted_le [of flt sl en ps]
    run_admitted_numbers_sorted [of flt sl en ps]
    below_watermark_skipped [of flt over_num s sc "text"]
  by blast

theorem watermark_monotone_witness:
  "fl_lt (over_to_float py_float ''49.1'')
     (highest_over_seen (run py_float set_order True [Some page_four, None, Some page_six]))
   \<and> process_row py_float ''NZ 257/4 (49.3)'' (Some ''49.1'', ''no run, defended'')
        (run py_float set_order True [Some page_four, None, Some page_six])
      = run py_float set_order True [Some page_four, None, Some page_six]
   \<and> list_all (\<lambda>e. position py_float e \<noteq> NaN)
        (admitted (run py_float set_order True [Some page_four, None, Some page_six]))
   \<and> sorted_wrt fl_le (map (position py_float)
        (admitted (run py_float set_order True [Some page_four, None, Some page_six])))
   \<and> map (position py_float) (admitted (run py_float set_order True [Some page_four, None, Some page_six]))
      = [Fin (246 / 5), Fin (493 / 10)]"
  using watermark_monotone [of py_float "''NZ 257/4 (49.3)''" "(Some ''49.1'', ''no run, defended'')"
      "run py_float set_order True [Some page_four, None, Some page_six]" set_order True
      "[Some page_four, None, Some page_six]" "[]" "''49.1''" "''no run, defended''"]
  by (simp add: run_page_four_six position_def over_to_float_def py_float_49_1 py_float_49_2 py_float_49_3)

text \<open>
  The claim as stated fails when a position is NaN. \<open>float\<close> parses the over text nan;
  both comparisons of lines 183 and 185 are false for it, so the row is admitted at any
  watermark, and 49.2 followed by NaN is not non-decreasing: \<open>49.2 <= nan\<close> is false.
\<close>

theorem watermark_monotone_counterexample:
  "map (position py_float) (admitted (run py_float set_order True [Some page_four, Some page_nan]))
     = [Fin (246 / 5), NaN]
   \<and> \<not> fl_le (Fin (246 / 5)) NaN
   \<and> \<not> sorted_wrt fl_le
         (map (position py_float) (admitted (run py_float set_order True [Some page_four, Some page_nan])))"
  by (simp add: run_page_nan position_def over_to_float_def py_float_49_2 py_float_nan fl_le_def)

subsection \<open>What a scan admits\<close>

lemma process_row_admitted:
  "admitted (process_row flt sc row s) = admitted s \<and> process_row flt sc row s = s
   \<or> (\<exists>e. admitted (process_row flt sc row s) = admitted s @ [e]
          \<and> new_commentaries (process_row flt sc row s) = new_commentaries s @ [e]
          \<and> new_commentary_found (process_row flt sc row s))"
  using process_row_cases [of flt sc row s] by auto

lemma fold_rows_admitted:
  "\<exists>es. admitted (fold (process_row flt sc) rows s) = admitted s @ es
        \<and> new_commentaries (fold (process_row flt sc) rows s) = new_commentaries s @ es
        \<and> (new_commentary_found (fold (process_row flt sc) rows s) \<longleftrightarrow> new_commentary_found s \<or> es \<noteq> [])
        \<and> (es = [] \<longleftrightarrow> fold (process_row flt sc) rows s = s)"
proof (induction rows arbitrary: s)
  case Nil
  show ?case by simp
next
  case (Cons r rs)
  let ?t = "process_row flt sc r s"
  from Cons.IH [of ?t] obtain es where
    es: "admitted (fold (process_row flt sc) rs ?t) = admitted ?t @ es"
      "new_commentaries (fold (process_row flt sc) rs ?t) = new_commentaries ?t @ es"
      "new_commentary_found (fold (process_row flt sc) rs ?t) \<longleftrightarrow> new_commentary_found ?t \<or> es \<noteq> []"
      "es = [] \<longleftrightarrow> fold (process_row flt sc) rs ?t = ?t"
    by blast
  from process_row_admitted [of flt sc r s] show ?case
  proof
    assume "admitted ?t = admitted s \<and> ?t = s"
    with es show ?thesis by auto
  next
    assume "\<exists>e. admitted ?t = admitted s @ [e]
          \<and> new_commentaries ?t = new_commentaries s @ [e] \<and> new_commentary_found ?t"
    then obtain e where e: "admitted ?t = admitted s @ [e]"
      "new_commentaries ?t = new_commentaries s @ [e]" "new_commentary_found ?t"
      by blast
    have ne: "fold (process_row flt sc) rs ?t \<noteq> s"
    proof
      assume "fold (process_row flt sc) rs ?t = s"
      with es(1) e(1) have "admitted s = admitted s @ [e] @ es" by simp
      then show False by simp
    qed
    have "admitted (fold (process_row flt sc) (r # rs) s) = admitted s @ (e # es)"
      using es(1) e(1) by simp
    moreover have "new_commentaries (fold (process_row flt sc) (r # rs) s) = new_commentaries s @ (e # es)"
      using es(2) e(2) by simp
    moreover have "new_commentary_found (fold (process_row flt sc) (r # rs) s)"
      using es(3) e(3) by simp
    moreover have "fold (process_row flt sc) (r # rs) s \<noteq> s"
      using ne by simp
    ultimately show ?thesis by blast
  qed
qed

text \<open>
  After the scan of a page, \<open>new_commentaries\<close> holds exactly the entries the scan
  admitted, and \<open>new_commentary_found\<close> says whether there are any.
\<close>

lemma scan_document_admitted:
  "admitted (scan_document flt doc s) = admitted s @ new_commentaries (scan_document flt doc s)
   \<and> (new_commentary_found (scan_document flt doc s) \<longleftrightarrow> new_commentaries (scan_document flt doc s) \<noteq> [])"
  using fold_rows_admitted [of flt "current_score doc" "rows_of doc"
      "s\<lparr>new_commentaries := [], new_commentary_found := False\<rparr>"]
  by (auto simp: scan_document_fold)

lemma scan_document_quiet:
  assumes "admitted (scan_document flt doc s) = admitted s"
  shows "scan_document flt doc s = s\<lparr>new_commentaries := [], new_commentary_found := False\<rparr>"
proof -
  let ?s0 = "s\<lparr>new_commentaries := [], new_commentary_found := False\<rparr>"
  from fold_rows_admitted [of flt "current_score doc" "rows_of doc" ?s0]
  obtain es where es: "admitted (fold (process_row flt (current_score doc)) (rows_of doc) ?s0) = admitted ?s0 @ es"
    "es = [] \<longleftrightarrow> fold (process_row flt (current_score doc)) (rows_of doc) ?s0 = ?s0"
    by blast
  from assms es(1) have "es = []" by (simp add: scan_document_fold)
  with es(2) show ?thesis by (simp add: scan_document_fold)
qed

subsection \<open>The size of the seen set\<close>

lemma evict_card: "card (seen_commentaries (evict sl s)) \<le> 1000"
proof (cases "card (seen_commentaries s) > 1000")
  case False
  then show ?thesis by (simp add: evict_def)
next
  case True
  let ?l = "sl (seen_commentaries s)"
  have "card (set (drop (length ?l - 500) ?l)) \<le> length (drop (length ?l - 500) ?l)"
    by (rule card_length)
  also have "\<dots> \<le> 500" by simp
  finally show ?thesis using True by (simp add: evict_def Let_def)
qed

lemma cycle_card:
  "card (seen_commentaries s) \<le> 1000 \<Longrightarrow> card (seen_commentaries (cycle flt sl en html s)) \<le> 1000"
  by (cases html) (simp_all add: cycle_def evict_card)

lemma run_from_card:
  "card (seen_commentaries s) \<le> 1000 \<Longrightarrow> card (seen_commentaries (run_from flt sl en s pages)) \<le> 1000"
proof (induction pages arbitrary: s)
  case Nil
  then show ?case by (simp add: run_from_def)
next
  case (Cons p ps)
  have eq: "run_from flt sl en s (p # ps) = run_from flt sl en (cycle flt sl en p s) ps"
    by (simp add: run_from_def)
  from Cons.prems have "card (seen_commentaries (cycle flt sl en p s)) \<le> 1000" by (rule cycle_card)
  then show ?case unfolding eq by (rule Cons.IH)
qed

lemma run_card: "card (seen_commentaries (run flt sl en pages)) \<le> 1000"
  unfolding run_def by (rule run_from_card) (simp add: init_vars_def)

subsection \<open>A cycle that admits nothing\<close>

lemma notify_quiet: "new_commentaries s = [] \<Longrightarrow> notify flt en s = s"
  by (simp add: notify_def)

lemma evict_small: "card (seen_commentaries s) \<le> 1000 \<Longrightarrow> evict sl s = s"
  by (simp add: evict_def)

lemma quiet_cycle:
  assumes quiet: "admitted (cycle flt sl en (Some doc) s) = admitted s"
    and small: "card (seen_commentaries (notify flt en (scan_document flt doc s))) \<le> 1000"
  shows "cycle flt sl en (Some doc) s = s\<lparr>new_commentaries := [], new_commentary_found := False\<rparr>"
proof -
  from quiet have "admitted (scan_document flt doc s) = admitted s"
    by (simp add: cycle_def evict_frame notify_frame)
  then have scan: "scan_document flt doc s = s\<lparr>new_commentaries := [], new_commentary_found := False\<rparr>"
    by (rule scan_document_quiet)
  then have n: "notify flt en (scan_document flt doc s) = scan_document flt doc s"
    by (simp add: notify_quiet)
  with small have "evict sl (scan_document flt doc s) = scan_document flt doc s"
    by (simp add: evict_small)
  with n scan show ?thesis by (simp add: cycle_def)
qed

lemma quiet_cycle_reachable:
  assumes quiet: "admitted (cycle flt sl en (Some doc) (run flt sl en ps)) = admitted (run flt sl en ps)"
  shows "cycle flt sl en (Some doc) (run flt sl en ps)
         = (run flt sl en ps)\<lparr>new_commentaries := [], new_commentary_found := False\<rparr>"
proof -
  let ?s = "run flt sl en ps"
  from quiet have "admitted (scan_document flt doc ?s) = admitted ?s"
    by (simp add: cycle_def evict_frame notify_frame)
  then have scan: "scan_document flt doc ?s = ?s\<lparr>new_commentaries := [], new_commentary_found := False\<rparr>"
    by (rule scan_document_quiet)
  have "card (seen_commentaries (notify flt en (scan_document flt doc ?s))) \<le> 1000"
    using run_card [of flt sl en ps] by (simp add: notify_frame scan)
  with quiet show ?thesis by (rule quiet_cycle)
qed

lemma seen_row_skipped:
  "commentary_id over_num text \<in> seen_commentaries s \<Longrightarrow>
   process_row flt sc (Some over_num, text) s = s"
  by (rule process_row_skip) (simp add: admits_def)

lemma cycle_page_four_again:
  "cycle py_float sl en (Some page_four) (run py_float sl en [Some page_four])
   = (run py_float sl en [Some page_four])\<lparr>new_commentaries := [], new_commentary_found := False\<rparr>"
  unfolding run_page_four
  by (simp add: cycle_def scan_document_def scan_section_def process_row_def notify_def evict_def
      commentary_id_def Let_def page_four_def)

lemma py_float_50_1: "py_float ''50.1'' = Some (Fin (501 / 10))"
  by (simp add: float_defs)

text \<open>
  Claim C10. A cycle that admits no event, with at most 1000 keys in the seen set when
  line 209 tests its size, leaves the seen set, the watermark and the last sent over
  as they were (and dispatches nothing); so does such a cycle in any state of a run,
  where the seen set holds at most 1000 keys at the start of every cycle; a cycle whose
  fetch fails changes nothing at all. In particular a row whose identifier is already
  in the seen set leaves every variable unchanged, the watermark included, whatever its
  position.
\<close>

theorem quiet_cycle_unchanged:
  "(admitted (cycle flt sl en (Some doc) s) = admitted s
      \<and> card (seen_commentaries (notify flt en (scan_document flt doc s))) \<le> 1000 \<longrightarrow>
    seen_commentaries (cycle flt sl en (Some doc) s) = seen_commentaries s
      \<and> highest_over_seen (cycle flt sl en (Some doc) s) = highest_over_seen s
      \<and> last_sent_over (cycle flt sl en (Some doc) s) = last_sent_over s
      \<and> dispatched (cycle flt sl en (Some doc) s) = dispatched s)
   \<and> (admitted (cycle flt sl en (Some doc) (run flt sl en ps)) = admitted (run flt sl en ps)
      \<and> card (seen_commentaries (cycle flt sl en (Some doc) (run flt sl en ps))) \<le> 1000 \<longrightarrow>
    seen_commentaries (cycle flt sl en (Some doc) (run flt sl en ps)) = seen_commentaries (run flt sl en ps)
      \<and> highest_over_seen (cycle flt sl en (Some doc) (run flt sl en ps)) = highest_over_seen (run flt sl en ps)
      \<and> last_sent_over (cycle flt sl en (Some doc) (run flt sl en ps)) = last_sent_over (run flt sl en ps)
      \<and> dispatched (cycle flt sl en (Some doc) (run flt sl en ps)) = dispatched (run flt sl en ps))
   \<and> cycle flt sl en None s = s
   \<and> (commentary_id over_num ctext \<in> seen_commentaries t \<longrightarrow>
        process_row flt sc (Some over_num, ctext) t = t)"
proof -
  have 1: "seen_commentaries (cycle flt sl en (Some doc) s) = seen_commentaries s
      \<and> highest_over_seen (cycle flt sl en (Some doc) s) = highest_over_seen s
      \<and> last_sent_over (cycle flt sl en (Some doc) s) = last_sent_over s
      \<and> dispatched (cycle flt sl en (Some doc) s) = dispatched s"
    if "admitted (cycle flt sl en (Some doc) s) = admitted s"
      and "card (seen_commentaries (notify flt en (scan_document flt doc s))) \<le> 1000"
    using quiet_cycle [OF that] by simp
  have 2: "seen_commentaries (cycle flt sl en (Some doc) (run flt sl en ps)) = seen_commentaries (run flt sl en ps)
      \<and> highest_over_seen (cycle flt sl en (Some doc) (run flt sl en ps)) = highest_over_seen (run flt sl en ps)
      \<and> last_sent_over (cycle flt sl en (Some doc) (run flt sl en ps)) = last_sent_over (run flt sl en ps)
      \<and> dispatched (cycle flt sl en (Some doc) (run flt sl en ps)) = dispatched (run flt sl en ps)"
    if "admitted (cycle flt sl en (Some doc) (run flt sl en ps)) = admitted (run flt sl en ps)"
    using quiet_cycle_reachable [OF that] by simp
  have 3: "cycle flt sl en None s = s" by (simp add: cycle_def)
  from 1 2 3 seen_row_skipped [of over_num ctext t flt sc] show ?thesis by blast
qed

theorem quiet_cycle_unchanged_witness:
  "admitted (cycle py_float set_order True (Some page_four) (run py_float set_order True [Some page_four]))
     = admitted (run py_float set_order True [Some page_four])
   \<and> card (seen_commentaries (notify py_float True
        (scan_document py_float page_four (run py_float set_order True [Some page_four])))) \<le> 1000
   \<and> card (seen_commentaries
        (cycle py_float set_order True (Some page_four) (run py_float set_order True [Some page_four]))) \<le> 1000
   \<and> seen_commentaries (cycle py_float set_order True (Some page_four) (run py_float set_order True [Some page_four]))
     = {''49.2 - FOUR! cracking shot''}
   \<and> highest_over_seen (cycle py_float set_order True (Some page_four) (run py_float set_order True [Some page_four]))
     = Fin (246 / 5)
   \<and> last_sent_over (cycle py_float set_order True (Some page_four) (run py_float set_order True [Some page_four]))
     = Some ''49.2''
   \<and> length (dispatched (cycle py_float set_order True (Some page_four) (run py_float set_order True [Some page_four])))
     = 1
   \<and> commentary_id ''50.1'' ''SIX! again'' \<in> seen_commentaries (init_vars\<lparr>seen_commentaries := {''50.1 - SIX! again''}\<rparr>)
   \<and> fl_lt (highest_over_seen (init_vars\<lparr>seen_commentaries := {''50.1 - SIX! again''}\<rparr>)) (over_to_float py_float ''50.1'')
   \<and> process_row py_float ''NZ 263/4 (50.1)'' (Some ''50.1'', ''SIX! again'')
        (init_vars\<lparr>seen_commentaries := {''50.1 - SIX! again''}\<rparr>)
      = init_vars\<lparr>seen_commentaries := {''50.1 - SIX! again''}\<rparr>"
proof -
  have a: "admitted (cycle py_float set_order True (Some page_four) (run py_float set_order True [Some page_four]))
     = admitted (run py_float set_order True [Some page_four])"
    by (simp add: cycle_page_four_again)
  have b: "card (seen_commentaries (notify py_float True
        (scan_document py_float page_four (run py_float set_order True [Some page_four])))) \<le> 1000"
  proof -
    from a have "admitted (scan_document py_float page_four (run py_float set_order True [Some page_four]))
        = admitted (run py_float set_order True [Some page_four])"
      by (simp add: cycle_def evict_frame notify_frame)
    then have "scan_document py_float page_four (run py_float set_order True [Some page_four])
        = (run py_float set_order True [Some page_four])\<lparr>new_commentaries := [], new_commentary_found := False\<rparr>"
      by (rule scan_document_quiet)
    then show ?thesis by (simp add: notify_frame run_page_four)
  qed
  have c: "card (seen_commentaries
        (cycle py_float set_order True (Some page_four) (run py_float set_order True [Some page_four]))) \<le> 1000"
    by (rule cycle_card [OF run_card])
  have d: "commentary_id ''50.1'' ''SIX! again'' \<in> seen_commentaries (init_vars\<lparr>seen_commentaries := {''50.1 - SIX! again''}\<rparr>)"
    by (simp add: commentary_id_def)
  have e: "fl_lt (highest_over_seen (init_vars\<lparr>seen_commentaries := {''50.1 - SIX! again''}\<rparr>)) (over_to_float py_float ''50.1'')"
    by (simp add: init_vars_def over_to_float_def py_float_50_1)
  show ?thesis
    using a b c d e
      quiet_cycle_unchanged [where flt = py_float and sl = set_order and en = True and doc = page_four
        and s = "run py_float set_order True [Some page_four]" and ps = "[Some page_four]"
        and over_num = "''50.1''" and ctext = "''SIX! again''"
        and t = "init_vars\<lparr>seen_commentaries := {''50.1 - SIX! again''}\<rparr>"
        and sc = "''NZ 263/4 (50.1)''"]
    by (simp add: run_page_four)
qed

subsection \<open>Rows that stay skipped\<close>

lemma admits_grows: "\<not> admits flt s row \<Longrightarrow> grows s t \<Longrightarrow> \<not> admits flt t row"
proof
  assume na: "\<not> admits flt s row" and g: "grows s t" and a: "admits flt t row"
  from a obtain over_num where o: "fst row = Some over_num"
    by (auto simp: admits_def split: option.splits)
  from a o have t: "commentary_id over_num (snd row) \<notin> seen_commentaries t"
    "extract_result (snd row) \<noteq> ''event''" "over_num \<noteq> ''N/A''"
    "\<not> fl_lt (over_to_float flt over_num) (highest_over_seen t)"
    by (simp_all add: admits_def)
  from g t(1) have "commentary_id over_num (snd row) \<notin> seen_commentaries s"
    by (auto simp: grows_def)
  with na o t(2,3) have lt: "fl_lt (over_to_float flt over_num) (highest_over_seen s)"
    by (simp add: admits_def)
  from g have "highest_over_seen t = highest_over_seen s \<or> fl_lt (highest_over_seen s) (highest_over_seen t)"
    by (simp add: grows_def)
  then have "fl_lt (over_to_float flt over_num) (highest_over_seen t)"
  proof
    assume "highest_over_seen t = highest_over_seen s"
    with lt show ?thesis by simp
  next
    assume "fl_lt (highest_over_seen s) (highest_over_seen t)"
    with lt show ?thesis by (rule fl_lt_trans)
  qed
  with t(4) show False by simp
qed

lemma process_row_then_skipped: "\<not> admits flt (process_row flt sc row s) row"
proof (cases "admits flt s row")
  case False
  then show ?thesis by (simp add: process_row_skip)
next
  case True
  then obtain over_num where o: "fst row = Some over_num"
    by (auto simp: admits_def split: option.splits)
  then have r: "row = (Some over_num, snd row)" by (cases row) simp
  from process_row_admit [of flt s over_num "snd row" sc] True r
  have "commentary_id over_num (snd row) \<in> seen_commentaries (process_row flt sc row s)"
    by simp
  with o show ?thesis by (simp add: admits_def)
qed

lemma process_row_twice:
  "process_row flt sc' row (process_row flt sc row s) = process_row flt sc row s"
  by (rule process_row_skip) (rule process_row_then_skipped)

lemma fold_rows_then_skipped:
  "r \<in> set rows \<Longrightarrow> \<not> admits flt (fold (process_row flt sc) rows s) r"
proof (induction rows arbitrary: s)
  case Nil
  then show ?case by simp
next
  case (Cons x xs)
  let ?t = "process_row flt sc x s"
  from Cons.prems consider "r = x" | "r \<in> set xs" by auto
  then show ?case
  proof cases
    case 1
    have "\<not> admits flt ?t x" by (rule process_row_then_skipped)
    moreover have "grows ?t (fold (process_row flt sc) xs ?t)" by (rule grows_fold_rows)
    ultimately have "\<not> admits flt (fold (process_row flt sc) xs ?t) x" by (rule admits_grows)
    with 1 show ?thesis by simp
  next
    case 2
    then have "\<not> admits flt (fold (process_row flt sc) xs ?t) r" by (rule Cons.IH)
    then show ?thesis by simp
  qed
qed

lemma fold_rows_all_skipped:
  "(\<And>r. r \<in> set rows \<Longrightarrow> \<not> admits flt s r) \<Longrightarrow> fold (process_row flt sc) rows s = s"
proof (induction rows)
  case Nil
  show ?case by simp
next
  case (Cons x xs)
  have "process_row flt sc x s = s"
    by (rule process_row_skip) (simp add: Cons.prems)
  moreover have "fold (process_row flt sc) xs s = s"
    by (rule Cons.IH) (simp add: Cons.prems)
  ultimately show ?case by simp
qed

text \<open>
  A page with the same rows as the page of the cycle before (the score may differ)
  admits nothing, when that cycle did not evict.
\<close>

lemma rescan_quiet:
  assumes small: "card (seen_commentaries (notify flt en (scan_document flt doc s))) \<le> 1000"
    and same: "commentary_sections doc' = commentary_sections doc"
  shows "cycle flt sl en (Some doc') (cycle flt sl en (Some doc) s)
         = (cycle flt sl en (Some doc) s)\<lparr>new_commentaries := [], new_commentary_found := False\<rparr>"
proof -
  let ?s1 = "scan_document flt doc s"
  let ?s2 = "cycle flt sl en (Some doc) s"
  let ?s0 = "?s2\<lparr>new_commentaries := [], new_commentary_found := False\<rparr>"
  from small have s2: "?s2 = notify flt en ?s1"
    by (simp add: cycle_def evict_small)
  have rows: "rows_of doc' = rows_of doc" using same by (simp add: rows_of_def)
  have dead: "\<not> admits flt ?s0 r" if "r \<in> set (rows_of doc)" for r
  proof -
    from that have "\<not> admits flt ?s1 r"
      unfolding scan_document_fold by (rule fold_rows_then_skipped)
    moreover have "admits flt ?s0 r = admits flt ?s1 r"
      by (rule admits_cong) (simp_all add: s2 notify_frame)
    ultimately show ?thesis by simp
  qed
  have "scan_document flt doc' ?s2 = ?s0"
    unfolding scan_document_fold rows by (rule fold_rows_all_skipped) (rule dead)
  moreover have "notify flt en ?s0 = ?s0" by (simp add: notify_quiet)
  moreover have "evict sl ?s0 = ?s0"
    using small by (simp add: evict_small s2 notify_frame)
  ultimately show ?thesis by (simp add: cycle_def)
qed

lemma seen_survives_cycle:
  assumes "k \<in> seen_commentaries s"
    and "card (seen_commentaries (notify flt en (scan_document flt doc s))) \<le> 1000"
  shows "k \<in> seen_commentaries (cycle flt sl en (Some doc) s)"
proof -
  have "grows (s\<lparr>new_commentaries := [], new_commentary_found := False\<rparr>) (scan_document flt doc s)"
    unfolding scan_document_fold by (rule grows_fold_rows)
  with assms(1) have "k \<in> seen_commentaries (scan_document flt doc s)"
    by (auto simp: grows_def)
  with assms(2) show ?thesis
    by (simp add: cycle_def evict_small notify_frame)
qed

lemma process_row_count:
  "length (admitted (process_row flt sc row s)) = length (admitted s) + (if admits flt s row then 1 else 0)"
proof (cases "admits flt s row")
  case False
  then show ?thesis by (simp add: process_row_skip)
next
  case True
  then obtain over_num where o: "fst row = Some over_num"
    by (auto simp: admits_def split: option.splits)
  then have r: "row = (Some over_num, snd row)" by (cases row) simp
  from process_row_admit [of flt s over_num "snd row" sc] True r
  have "admitted (process_row flt sc row s) = admitted s @ [new_entry sc over_num (snd row)]"
    by simp
  with True show ?thesis by simp
qed

lemma extract_result_generic: "extract_result ''good length ball, left alone'' = ''event''"
  by (simp add: extract_result_def lower_def lower_char_def Let_def)

lemma admits_four_at_start: "admits py_float init_vars (Some ''49.2'', ''FOUR! cracking shot'')"
  by (simp add: admits_def init_vars_def commentary_id_def extract_result_four over_to_float_def py_float_49_2)

lemma cycle_page_six_card:
  "card (seen_commentaries (notify py_float en
     (scan_document py_float page_six (run py_float sl en [Some page_four])))) \<le> 1000"
proof -
  have "cycle py_float sl en (Some page_six) (run py_float sl en [Some page_four])
        = run py_float sl en [Some page_four, None, Some page_six]"
    by (simp add: run_def run_from_def cycle_def)
  have "card (seen_commentaries (scan_document py_float page_six (run py_float sl en [Some page_four]))) \<le> 1000"
    unfolding run_page_four
    by (simp add: scan_document_def scan_section_def process_row_def
        commentary_id_def over_to_float_def fl_gt_def Let_def page_six_def
        py_float_49_1 py_float_49_2 py_float_49_3
        extract_result_four extract_result_six extract_result_dot)
  then show ?thesis by (simp add: notify_frame)
qed

text \<open>
  Claim C2, as amended. Processing the same (over number, commentary) pair twice in
  sequence admits at most one event: the second processing changes nothing, whatever
  the first did, and the two together admit exactly one event when the first
  occurrence passes the filters (\<open>admits\<close>) and none otherwise. Admission inserts the
  pair's identifier into the seen set; a row whose identifier is in the seen set is
  skipped; and an identifier stays in the seen set through a cycle that does not
  evict and through a cycle whose fetch fails, so the same holds across cycles.
\<close>

theorem dedup_idempotent:
  "process_row flt sc' row (process_row flt sc row s) = process_row flt sc row s
   \<and> length (admitted (process_row flt sc' row (process_row flt sc row s)))
       = length (admitted s) + (if admits flt s row then 1 else 0)
   \<and> (admits flt s (Some over_num, ctext) \<longrightarrow>
        commentary_id over_num ctext \<in> seen_commentaries (process_row flt sc (Some over_num, ctext) s))
   \<and> (commentary_id over_num ctext \<in> seen_commentaries t \<longrightarrow>
        process_row flt sc (Some over_num, ctext) t = t)
   \<and> (k \<in> seen_commentaries t
        \<and> card (seen_commentaries (notify flt en (scan_document flt doc t))) \<le> 1000 \<longrightarrow>
        k \<in> seen_commentaries (cycle flt sl en (Some doc) t))
   \<and> cycle flt sl en None t = t"
proof -
  have 1: "process_row flt sc' row (process_row flt sc row s) = process_row flt sc row s"
    by (rule process_row_twice)
  have 2: "length (admitted (process_row flt sc' row (process_row flt sc row s)))
       = length (admitted s) + (if admits flt s row then 1 else 0)"
    unfolding 1 by (rule process_row_count)
  have 3: "commentary_id over_num ctext \<in> seen_commentaries (process_row flt sc (Some over_num, ctext) s)"
    if "admits flt s (Some over_num, ctext)"
    using process_row_admit [OF that, of sc] by simp
  have 4: "cycle flt sl en None t = t" by (simp add: cycle_def)
  from 1 2 3 4 seen_row_skipped [of over_num ctext t flt sc] seen_survives_cycle [of k t flt en doc sl]
  show ?thesis by blast
qed

theorem dedup_idempotent_witness:
  "admits py_float init_vars (Some ''49.2'', ''FOUR! cracking shot'')
   \<and> length (admitted (process_row py_float ''NZ 251/4 (49.2)'' (Some ''49.2'', ''FOUR! cracking shot'')
        (process_row py_float ''NZ 251/4 (49.2)'' (Some ''49.2'', ''FOUR! cracking shot'') init_vars))) = 1
   \<and> commentary_id ''49.2'' ''FOUR! cracking shot''
        \<in> seen_commentaries (process_row py_float ''NZ 251/4 (49.2)'' (Some ''49.2'', ''FOUR! cracking shot'') init_vars)
   \<and> commentary_id ''49.2'' ''FOUR! cracking shot''
        \<in> seen_commentaries (run py_float set_order True [Some page_four])
   \<and> process_row py_float ''NZ 251/4 (49.2)'' (Some ''49.2'', ''FOUR! cracking shot'')
        (run py_float set_order True [Some page_four])
      = run py_float set_order True [Some page_four]
   \<and> card (seen_commentaries (notify py_float True
        (scan_document py_float page_six (run py_float set_order True [Some page_four])))) \<le> 1000
   \<and> commentary_id ''49.2'' ''FOUR! cracking shot''
        \<in> seen_commentaries (cycle py_float set_order True (Some page_six) (run py_float set_order True [Some page_four]))"
proof -
  have k: "commentary_id ''49.2'' ''FOUR! cracking shot''
        \<in> seen_commentaries (run py_float set_order True [Some page_four])"
    by (simp add: run_page_four commentary_id_def)
  note T = dedup_idempotent [where flt = py_float and sc = "''NZ 251/4 (49.2)''" and sc' = "''NZ 251/4 (49.2)''"
        and row = "(Some ''49.2'', ''FOUR! cracking shot'')" and s = init_vars
        and over_num = "''49.2''" and ctext = "''FOUR! cracking shot''"
        and t = "run py_float set_order True [Some page_four]"
        and k = "commentary_id ''49.2'' ''FOUR! cracking shot''"
        and en = True and doc = page_six and sl = set_order]
  have 1: "length (admitted (process_row py_float ''NZ 251/4 (49.2)'' (Some ''49.2'', ''FOUR! cracking shot'')
        (process_row py_float ''NZ 251/4 (49.2)'' (Some ''49.2'', ''FOUR! cracking shot'') init_vars))) = 1"
    using T [THEN conjunct2, THEN conjunct1] admits_four_at_start by (simp add: init_vars_def)
  have 2: "commentary_id ''49.2'' ''FOUR! cracking shot''
        \<in> seen_commentaries (process_row py_float ''NZ 251/4 (49.2)'' (Some ''49.2'', ''FOUR! cracking shot'') init_vars)"
    using T admits_four_at_start by blast
  have 3: "process_row py_float ''NZ 251/4 (49.2)'' (Some ''49.2'', ''FOUR! cracking shot'')
        (run py_float set_order True [Some page_four])
      = run py_float set_order True [Some page_four]"
    using T k by blast
  have 4: "commentary_id ''49.2'' ''FOUR! cracking shot''
        \<in> seen_commentaries (cycle py_float set_order True (Some page_six) (run py_float set_order True [Some page_four]))"
    using T k cycle_page_six_card [of True set_order] by blast
  from admits_four_at_start 1 2 k 3 cycle_page_six_card [of True set_order] 4
  show ?thesis by blast
qed

text \<open>
  The claim as stated fails for a pair that the filters reject: a generic event
  processed twice, from the initial state, admits no event at all.
\<close>

theorem dedup_counterexample:
  "admitted (process_row py_float ''NZ 251/4 (49.2)'' (Some ''49.2'', ''good length ball, left alone'')
      (process_row py_float ''NZ 251/4 (49.2)'' (Some ''49.2'', ''good length ball, left alone'')
         init_vars)) = []"
  by (simp add: process_row_def commentary_id_def init_vars_def extract_result_generic Let_def)

subsection \<open>The maximum that \<open>max\<close> returns\<close>

lemma py_max_mem: "py_max key m xs \<in> set (m # xs)"
  by (induction xs arbitrary: m) auto

lemma py_max_NaN: "key m = NaN \<Longrightarrow> py_max key m xs = m"
  by (induction xs arbitrary: m) (auto simp: fl_gt_def dest: fl_lt_not_NaN)

lemma py_max_not_NaN: "key m \<noteq> NaN \<Longrightarrow> key (py_max key m xs) \<noteq> NaN"
proof (induction xs arbitrary: m)
  case Nil
  then show ?case by simp
next
  case (Cons x xs)
  show ?case
  proof (cases "fl_gt (key x) (key m)")
    case True
    then have "key x \<noteq> NaN" using fl_lt_not_NaN by (auto simp: fl_gt_def)
    then have "key (py_max key x xs) \<noteq> NaN" by (rule Cons.IH)
    with True show ?thesis by simp
  next
    case False
    with Cons.IH [OF Cons.prems] show ?thesis by simp
  qed
qed

lemma py_max_ge_start: "\<not> fl_gt (key m) (key (py_max key m xs))"
proof (induction xs arbitrary: m)
  case Nil
  show ?case by (simp add: fl_gt_def fl_lt_irrefl)
next
  case (Cons x xs)
  show ?case
  proof (cases "fl_gt (key x) (key m)")
    case True
    have "\<not> fl_gt (key x) (key (py_max key x xs))" by (rule Cons.IH)
    with True have "\<not> fl_gt (key m) (key (py_max key x xs))"
      unfolding fl_gt_def using fl_lt_trans by blast
    with True show ?thesis by simp
  next
    case False
    with Cons.IH [of m] show ?thesis by simp
  qed
qed

lemma py_max_greatest: "x \<in> set (m # xs) \<Longrightarrow> \<not> fl_gt (key x) (key (py_max key m xs))"
proof (induction xs arbitrary: m)
  case Nil
  then show ?case by (simp add: fl_gt_def fl_lt_irrefl)
next
  case (Cons y ys)
  let ?m' = "if fl_gt (key y) (key m) then y else m"
  have eq: "py_max key m (y # ys) = py_max key ?m' ys" by simp
  from Cons.prems consider "x = m" | "x = y" | "x \<in> set ys" by auto
  then show ?case
  proof cases
    case 1
    then show ?thesis using py_max_ge_start [of key m "y # ys"] by simp
  next
    case 3
    then have "x \<in> set (?m' # ys)" by simp
    then have "\<not> fl_gt (key x) (key (py_max key ?m' ys))" by (rule Cons.IH)
    then show ?thesis by simp
  next
    case 2
    show ?thesis
    proof (cases "fl_gt (key y) (key m)")
      case True
      then show ?thesis using 2 py_max_ge_start [of key y ys] by simp
    next
      case False
      note notgt = this
      show ?thesis
      proof (cases "key m = NaN")
        case True
        then have "py_max key m (y # ys) = m" by (rule py_max_NaN)
        with True show ?thesis by (simp add: fl_gt_def)
      next
        case False
        then have rn: "key (py_max key m ys) \<noteq> NaN" by (rule py_max_not_NaN)
        have mr: "\<not> fl_lt (key (py_max key m ys)) (key m)"
          using py_max_ge_start [of key m ys] by (simp add: fl_gt_def)
        show ?thesis
        proof
          assume "fl_gt (key x) (key (py_max key m (y # ys)))"
          with 2 notgt have lt: "fl_lt (key (py_max key m ys)) (key y)"
            by (simp add: fl_gt_def)
          from fl_total [OF False rn] mr
          consider "fl_lt (key m) (key (py_max key m ys))" | "key m = key (py_max key m ys)"
            by blast
          then have "fl_lt (key m) (key y)"
          proof cases
            case 1
            then show ?thesis using lt by (rule fl_lt_trans)
          next
            case 2
            with lt show ?thesis by simp
          qed
          with notgt show False by (simp add: fl_gt_def)
        qed
      qed
    qed
  qed
qed

subsection \<open>What a cycle dispatches\<close>

lemma position_key: "(\<lambda>x. over_to_float flt (over x)) = position flt"
  by (simp add: position_def fun_eq_iff)

lemma notify_dispatched:
  "new_commentary_found s \<longleftrightarrow> new_commentaries s \<noteq> [] \<Longrightarrow>
   dispatched (notify flt en s) =
     (case new_commentaries s of
        [] \<Rightarrow> dispatched s
      | c # cs \<Rightarrow>
          (if en \<and> last_sent_over s \<noteq> Some (over (py_max (position flt) c cs))
           then dispatched s @ [py_max (position flt) c cs] else dispatched s))
   \<and> last_sent_over (notify flt en s) =
     (case new_commentaries s of
        [] \<Rightarrow> last_sent_over s
      | c # cs \<Rightarrow> Some (over (py_max (position flt) c cs)))"
  by (auto simp: notify_def Let_def position_key split: list.splits)

lemma cycle_dispatched:
  "dispatched (cycle flt sl en (Some doc) s) =
     (case new_commentaries (scan_document flt doc s) of
        [] \<Rightarrow> dispatched s
      | c # cs \<Rightarrow>
          (if en \<and> last_sent_over s \<noteq> Some (over (py_max (position flt) c cs))
           then dispatched s @ [py_max (position flt) c cs] else dispatched s))
   \<and> last_sent_over (cycle flt sl en (Some doc) s) =
     (case new_commentaries (scan_document flt doc s) of
        [] \<Rightarrow> last_sent_over s
      | c # cs \<Rightarrow> Some (over (py_max (position flt) c cs)))"
  using notify_dispatched [of "scan_document flt doc s" flt en] scan_document_admitted [of flt doc s]
  by (simp add: cycle_def evict_frame scan_document_frame split: list.splits)

lemma cycle_dispatched_length:
  "length (dispatched (cycle flt sl en html s)) \<le> length (dispatched s) + 1"
proof (cases html)
  case None
  then show ?thesis by (simp add: cycle_def)
next
  case (Some doc)
  then show ?thesis
    by (simp add: cycle_dispatched split: list.splits)
qed

lemma py_float_49_20: "py_float ''49.20'' = Some (Fin (246 / 5))"
  by (simp add: float_defs)

lemma run_page_four_rewritten:
  "run py_float sl en [Some page_four, Some page_four_rewritten] =
     \<lparr>seen_commentaries = {''49.20 - FOUR! cracking shot'', ''49.2 - FOUR! cracking shot''},
      highest_over_seen = Fin (246 / 5),
      last_sent_over = Some ''49.20'',
      new_commentaries = [\<lparr>over = ''49.20'', commentary = ''FOUR! cracking shot'', result = ''4'', score = ''NZ 251/4 (49.2)''\<rparr>],
      new_commentary_found = True,
      admitted = [\<lparr>over = ''49.2'', commentary = ''FOUR! cracking shot'', result = ''4'', score = ''NZ 251/4 (49.2)''\<rparr>,
                  \<lparr>over = ''49.20'', commentary = ''FOUR! cracking shot'', result = ''4'', score = ''NZ 251/4 (49.2)''\<rparr>],
      dispatched = (if en then
                 [\<lparr>over = ''49.2'', commentary = ''FOUR! cracking shot'', result = ''4'', score = ''NZ 251/4 (49.2)''\<rparr>,
                  \<lparr>over = ''49.20'', commentary = ''FOUR! cracking shot'', result = ''4'', score = ''NZ 251/4 (49.2)''\<rparr>] else [])\<rparr>"
proof -
  have "run py_float sl en [Some page_four, Some page_four_rewritten]
        = cycle py_float sl en (Some page_four_rewritten) (run py_float sl en [Some page_four])"
    by (simp add: run_def run_from_def)
  then show ?thesis
    unfolding run_page_four
    by (simp add: cycle_def scan_document_def scan_section_def process_row_def notify_def evict_def
        commentary_id_def over_to_float_def fl_gt_def Let_def page_four_rewritten_def
        py_float_49_2 py_float_49_20 extract_result_four insert_commute)
qed

lemma cycle_page_six:
  "cycle py_float sl en (Some page_six) (run py_float sl en [Some page_four])
   = run py_float sl en [Some page_four, None, Some page_six]"
  by (simp add: run_def run_from_def cycle_def)

text \<open>
  Claim C3, as amended. The events a cycle admits are the new commentaries of its scan.
  A cycle dispatches at most one notification. When it dispatches one, the event is
  the one that \<open>max\<close> selects among the cycle's admitted events, an admitted event such
  that no admitted event of the cycle has a greater position (which one among several
  such events is left open), and the over text of that event differs from the last sent
  over: the comparison is on the texts, not on the parsed positions. So two admitted
  events with the maximal position trigger at most one notification, a cycle whose
  selected event carries the last sent over text triggers none, and a page with the
  same rows as the page before, with no eviction in between, admits no event and
  triggers none.
\<close>

theorem notification_gating:
  "admitted (cycle flt sl en (Some doc) s) = admitted s @ new_commentaries (scan_document flt doc s)
   \<and> (case new_commentaries (scan_document flt doc s) of
        [] \<Rightarrow> dispatched (cycle flt sl en (Some doc) s) = dispatched s
      | c # cs \<Rightarrow>
          py_max (position flt) c cs \<in> set (c # cs)
          \<and> list_all (\<lambda>x. \<not> fl_gt (position flt x) (position flt (py_max (position flt) c cs))) (c # cs)
          \<and> dispatched (cycle flt sl en (Some doc) s) =
              (if en \<and> last_sent_over s \<noteq> Some (over (py_max (position flt) c cs))
               then dispatched s @ [py_max (position flt) c cs] else dispatched s))
   \<and> length (dispatched (cycle flt sl en html s)) \<le> length (dispatched s) + 1
   \<and> dispatched (cycle flt sl en None s) = dispatched s
   \<and> (card (seen_commentaries (notify flt en (scan_document flt doc s))) \<le> 1000
       \<and> commentary_sections doc' = commentary_sections doc \<longrightarrow>
       admitted (cycle flt sl en (Some doc') (cycle flt sl en (Some doc) s))
         = admitted (cycle flt sl en (Some doc) s)
       \<and> dispatched (cycle flt sl en (Some doc') (cycle flt sl en (Some doc) s))
         = dispatched (cycle flt sl en (Some doc) s))"
proof -
  have 1: "admitted (cycle flt sl en (Some doc) s) = admitted s @ new_commentaries (scan_document flt doc s)"
    using scan_document_admitted [of flt doc s] by (simp add: cycle_def evict_frame notify_frame)
  have 2: "(case new_commentaries (scan_document flt doc s) of
        [] \<Rightarrow> dispatched (cycle flt sl en (Some doc) s) = dispatched s
      | c # cs \<Rightarrow>
          py_max (position flt) c cs \<in> set (c # cs)
          \<and> list_all (\<lambda>x. \<not> fl_gt (position flt x) (position flt (py_max (position flt) c cs))) (c # cs)
          \<and> dispatched (cycle flt sl en (Some doc) s) =
              (if en \<and> last_sent_over s \<noteq> Some (over (py_max (position flt) c cs))
               then dispatched s @ [py_max (position flt) c cs] else dispatched s))"
  proof (cases "new_commentaries (scan_document flt doc s)")
    case Nil
    then show ?thesis by (simp add: cycle_dispatched)
  next
    case (Cons c cs)
    have "py_max (position flt) c cs \<in> set (c # cs)" by (rule py_max_mem)
    moreover have "list_all (\<lambda>x. \<not> fl_gt (position flt x) (position flt (py_max (position flt) c cs))) (c # cs)"
      unfolding list_all_iff using py_max_greatest [of _ c cs "position flt"] by blast
    ultimately show ?thesis using Cons by (simp add: cycle_dispatched)
  qed
  have 3: "length (dispatched (cycle flt sl en html s)) \<le> length (dispatched s) + 1"
    by (rule cycle_dispatched_length)
  have 4: "dispatched (cycle flt sl en None s) = dispatched s" by (simp add: cycle_def)
  have 5: "admitted (cycle flt sl en (Some doc') (cycle flt sl en (Some doc) s))
         = admitted (cycle flt sl en (Some doc) s)
       \<and> dispatched (cycle flt sl en (Some doc') (cycle flt sl en (Some doc) s))
         = dispatched (cycle flt sl en (Some doc) s)"
    if "card (seen_commentaries (notify flt en (scan_document flt doc s))) \<le> 1000"
      and "commentary_sections doc' = commentary_sections doc"
    using rescan_quiet [OF that, of sl] by simp
  from 1 2 3 4 5 show ?thesis by blast
qed

theorem notification_gating_witness:
  "card (seen_commentaries (notify py_float True
      (scan_document py_float page_six (run py_float set_order True [Some page_four])))) \<le> 1000
   \<and> commentary_sections page_six = commentary_sections page_six
   \<and> admitted (cycle py_float set_order True (Some page_six)
        (cycle py_float set_order True (Some page_six) (run py_float set_order True [Some page_four])))
      = admitted (cycle py_float set_order True (Some page_six) (run py_float set_order True [Some page_four]))
   \<and> dispatched (cycle py_float set_order True (Some page_six)
        (cycle py_float set_order True (Some page_six) (run py_float set_order True [Some page_four])))
      = dispatched (cycle py_float set_order True (Some page_six) (run py_float set_order True [Some page_four]))
   \<and> map over (dispatched (cycle py_float set_order True (Some page_six) (run py_float set_order True [Some page_four])))
      = [''49.2'', ''49.3'']"
proof -
  note T = notification_gating [where flt = py_float and sl = set_order and en = True
      and doc = page_six and doc' = page_six and s = "run py_float set_order True [Some page_four]"
      and html = None]
  have 1: "map over (dispatched (cycle py_float set_order True (Some page_six) (run py_float set_order True [Some page_four])))
      = [''49.2'', ''49.3'']"
    by (simp add: cycle_page_six run_page_four_six)
  from T cycle_page_six_card [of True set_order] 1 show ?thesis by blast
qed

text \<open>
  The claim as stated compares positions. The second page below carries the row of
  the first with its over number written 49.20: its only admitted event has the
  position of the event notified before, 49.2, and a second notification is dispatched.
\<close>

theorem notification_gating_counterexample:
  "map (position py_float) (dispatched (run py_float set_order True [Some page_four]))
     = [Fin (246 / 5)]
   \<and> map (position py_float) (new_commentaries (run py_float set_order True [Some page_four, Some page_four_rewritten]))
     = [Fin (246 / 5)]
   \<and> map (position py_float) (dispatched (run py_float set_order True [Some page_four, Some page_four_rewritten]))
     = [Fin (246 / 5), Fin (246 / 5)]"
  by (simp add: run_page_four run_page_four_rewritten position_def over_to_float_def
      py_float_49_2 py_float_49_20)

subsection \<open>The last sent over\<close>

lemma cycle_enabled_step:
  "last_sent_over (cycle flt sl True html s) = last_sent_over s
     \<and> dispatched (cycle flt sl True html s) = dispatched s
   \<or> (\<exists>e. dispatched (cycle flt sl True html s) = dispatched s @ [e]
          \<and> last_sent_over (cycle flt sl True html s) = Some (over e))"
proof (cases html)
  case None
  then show ?thesis by (simp add: cycle_def)
next
  case (Some doc)
  show ?thesis
  proof (cases "new_commentaries (scan_document flt doc s)")
    case Nil
    with Some show ?thesis by (simp add: cycle_dispatched)
  next
    case (Cons c cs)
    show ?thesis
    proof (cases "last_sent_over s = Some (over (py_max (position flt) c cs))")
      case True
      with Some Cons show ?thesis by (simp add: cycle_dispatched)
    next
      case False
      with Some Cons show ?thesis by (simp add: cycle_dispatched)
    qed
  qed
qed

lemma cycle_any_step:
  "last_sent_over (cycle flt sl en html s) = last_sent_over s
   \<or> (\<exists>doc c cs. html = Some doc \<and> new_commentaries (scan_document flt doc s) = c # cs
          \<and> last_sent_over (cycle flt sl en html s) = Some (over (py_max (position flt) c cs)))"
proof (cases html)
  case None
  then show ?thesis by (simp add: cycle_def)
next
  case (Some doc)
  show ?thesis
  proof (cases "new_commentaries (scan_document flt doc s)")
    case Nil
    with Some show ?thesis by (simp add: cycle_dispatched)
  next
    case (Cons c cs)
    with Some show ?thesis by (simp add: cycle_dispatched)
  qed
qed

lemma tracks_cycle: "tracks s \<Longrightarrow> tracks (cycle flt sl True html s)"
  using cycle_enabled_step [of flt sl html s] by (auto simp: tracks_def)

lemma tracks_run_from: "tracks s \<Longrightarrow> tracks (run_from flt sl True s pages)"
proof (induction pages arbitrary: s)
  case Nil
  then show ?case by (simp add: run_from_def)
next
  case (Cons p ps)
  have eq: "run_from flt sl True s (p # ps) = run_from flt sl True (cycle flt sl True p s) ps"
    by (simp add: run_from_def)
  from Cons.prems have "tracks (cycle flt sl True p s)" by (rule tracks_cycle)
  then show ?case unfolding eq by (rule Cons.IH)
qed

lemma tracks_run: "tracks (run flt sl True pages)"
  unfolding run_def by (rule tracks_run_from) (simp add: tracks_def init_vars_def)

lemma cycle_disabled: "dispatched (cycle flt sl False html s) = dispatched s"
proof (cases html)
  case None
  then show ?thesis by (simp add: cycle_def)
next
  case (Some doc)
  then show ?thesis by (simp add: cycle_dispatched split: list.splits)
qed

lemma run_from_disabled: "dispatched (run_from flt sl False s pages) = dispatched s"
proof (induction pages arbitrary: s)
  case Nil
  show ?case by (simp add: run_from_def)
next
  case (Cons p ps)
  have eq: "run_from flt sl False s (p # ps) = run_from flt sl False (cycle flt sl False p s) ps"
    by (simp add: run_from_def)
  show ?case unfolding eq by (simp add: Cons.IH cycle_disabled)
qed

lemma run_disabled: "dispatched (run flt sl False pages) = []"
  by (simp add: run_def run_from_disabled init_vars_def)

text \<open>
  Claim C7, as amended. With notifications enabled, at every point of a run the last
  sent over is the over text of the last event dispatched, or \<open>None\<close> when no event has
  been dispatched, and a cycle changes it only by dispatching an event. With
  notifications disabled nothing is ever dispatched. Enabled or not, a cycle that
  admits no event (or whose fetch fails) leaves the last sent over as it was, and a
  cycle that admits events sets it to the over text of the event that \<open>max\<close> selects
  among them.
\<close>

theorem last_sent_over_tracks:
  "last_sent_over (run flt sl True ps) =
     (if dispatched (run flt sl True ps) = [] then None
      else Some (over (last (dispatched (run flt sl True ps)))))
   \<and> (last_sent_over (cycle flt sl True html s) = last_sent_over s
         \<and> dispatched (cycle flt sl True html s) = dispatched s
       \<or> (\<exists>e. dispatched (cycle flt sl True html s) = dispatched s @ [e]
              \<and> last_sent_over (cycle flt sl True html s) = Some (over e)))
   \<and> dispatched (run flt sl False ps) = []
   \<and> admitted (cycle flt sl en (Some doc) s) = admitted s @ new_commentaries (scan_document flt doc s)
   \<and> last_sent_over (cycle flt sl en (Some doc) s) =
       (case new_commentaries (scan_document flt doc s) of
          [] \<Rightarrow> last_sent_over s
        | c # cs \<Rightarrow> Some (over (py_max (position flt) c cs)))
   \<and> last_sent_over (cycle flt sl en None s) = last_sent_over s
   \<and> (last_sent_over (cycle flt sl en html s) = last_sent_over s
       \<or> (\<exists>doc c cs. html = Some doc \<and> new_commentaries (scan_document flt doc s) = c # cs
              \<and> last_sent_over (cycle flt sl en html s) = Some (over (py_max (position flt) c cs))))"
proof -
  have 1: "admitted (cycle flt sl en (Some doc) s) = admitted s @ new_commentaries (scan_document flt doc s)"
    using scan_document_admitted [of flt doc s] by (simp add: cycle_def evict_frame notify_frame)
  have 2: "last_sent_over (cycle flt sl en (Some doc) s) =
       (case new_commentaries (scan_document flt doc s) of
          [] \<Rightarrow> last_sent_over s
        | c # cs \<Rightarrow> Some (over (py_max (position flt) c cs)))"
    using cycle_dispatched [of flt sl en doc s] by blast
  have 3: "last_sent_over (cycle flt sl en None s) = last_sent_over s"
    by (simp add: cycle_def)
  from 1 2 3 tracks_run [of flt sl ps] cycle_enabled_step [of flt sl html s] run_disabled [of flt sl ps]
    cycle_any_step [of flt sl en html s]
  show ?thesis unfolding tracks_def by blast
qed

theorem last_sent_over_tracks_witness:
  "last_sent_over (run py_float set_order True [Some page_four, None, Some page_six]) = Some ''49.3''
   \<and> map over (dispatched (run py_float set_order True [Some page_four, None, Some page_six]))
      = [''49.2'', ''49.3'']"
  using last_sent_over_tracks [where flt = py_float and sl = set_order
      and ps = "[Some page_four, None, Some page_six]" and html = None and s = init_vars and en = True
      and doc = page_four]
  by (simp add: run_page_four_six)

text \<open>
  The claim as stated fails with notifications disabled: after the first page the last
  sent over is 49.2 and nothing has been dispatched.
\<close>

theorem last_sent_over_counterexample:
  "dispatched (run py_float set_order False [Some page_four]) = []
   \<and> last_sent_over (run py_float set_order False [Some page_four]) = Some ''49.2''"
  by (simp add: run_page_four)

subsection \<open>The sentinel of unparseable over numbers\<close>

lemma py_float_abc: "py_float ''abc'' = None"
  by (simp add: float_defs)

lemma py_float_minus_5: "py_float ''-5'' = Some (Fin (- 5))"
  by (simp add: float_defs)

lemma py_float_empty: "py_float '''' = None"
  by (simp add: float_defs)

lemma extract_result_out: "extract_result ''OUT! clean bowled'' = ''wicket''"
  by (simp add: extract_result_def lower_def lower_char_def Let_def)

lemma generic_never_admitted:
  "extract_result ctext = ''event'' \<Longrightarrow> process_row flt sc (over_div, ctext) s = s"
  by (rule process_row_skip) (simp add: admits_def split: option.splits)

lemma sentinel_value: "flt over_num = None \<Longrightarrow> over_to_float flt over_num = Fin (- 1)"
  by (simp add: over_to_float_def)

lemma sentinel_below_nonnegative:
  "flt over_num = None \<Longrightarrow> fl_le (Fin 0) x \<Longrightarrow> fl_lt (over_to_float flt over_num) x"
  by (cases x) (auto simp: over_to_float_def fl_le_def)

lemma sentinel_filtered:
  "flt over_num = None \<Longrightarrow> fl_lt (Fin (- 1)) (highest_over_seen s) \<Longrightarrow>
   process_row flt sc (Some over_num, ctext) s = s"
  by (rule below_watermark_skipped) (simp add: over_to_float_def)

lemma watermark_above_admitted:
  assumes "e \<in> set (admitted (run flt sl en ps))" and "fl_lt (Fin (- 1)) (position flt e)"
  shows "fl_lt (Fin (- 1)) (highest_over_seen (run flt sl en (ps @ qs)))"
proof -
  let ?h = "highest_over_seen (run flt sl en ps)"
  from ordered_run [of flt sl en ps] assms(1)
  have hn: "?h \<noteq> NaN" and nb: "\<not> fl_lt ?h (position flt e)"
    by (auto simp: ordered_def list_all_iff)
  from assms(2) have "position flt e \<noteq> NaN" using fl_lt_not_NaN by blast
  with hn nb fl_total [of "position flt e" ?h]
  consider "fl_lt (position flt e) ?h" | "position flt e = ?h" by blast
  then have above: "fl_lt (Fin (- 1)) ?h"
  proof cases
    case 1
    with assms(2) show ?thesis by (rule fl_lt_trans)
  next
    case 2
    with assms(2) show ?thesis by simp
  qed
  from run_from_watermark [of flt sl en "run flt sl en ps" qs]
  show ?thesis
  proof
    assume "highest_over_seen (run_from flt sl en (run flt sl en ps) qs) = ?h"
    with above show ?thesis by (simp add: run_append)
  next
    assume "fl_lt ?h (highest_over_seen (run_from flt sl en (run flt sl en ps) qs))"
    with above show ?thesis unfolding run_append by (rule fl_lt_trans)
  qed
qed

lemma sentinel_below_others:
  "flt over_num = None \<Longrightarrow> x \<noteq> NaN \<Longrightarrow> \<not> fl_le x (Fin (- 1)) \<Longrightarrow>
   fl_lt (over_to_float flt over_num) x"
  by (cases x) (auto simp: over_to_float_def fl_le_def)

text \<open>
  Claim C5, as amended. For every over text that \<open>float\<close> rejects, \<open>over_to_float\<close>
  returns the sentinel -1. The sentinel is strictly less than every parsed position
  other than NaN and the numbers at or below -1, hence than every position from 0 on. A
  row with such an over text is skipped, and changes nothing, in every state whose
  watermark is above -1; the states of a run are such states from the first admission
  of an event with a position above -1 on. Nothing is said here of the states whose
  watermark still is -1, the initial state among them.
\<close>

theorem sentinel_ordering:
  "(flt over_num = None \<longrightarrow> over_to_float flt over_num = Fin (- 1))
   \<and> (flt over_num = None \<and> x \<noteq> NaN \<and> \<not> fl_le x (Fin (- 1)) \<longrightarrow>
        fl_lt (over_to_float flt over_num) x)
   \<and> (flt over_num = None \<and> fl_le (Fin 0) x \<longrightarrow> fl_lt (over_to_float flt over_num) x)
   \<and> (flt over_num = None \<and> fl_lt (Fin (- 1)) (highest_over_seen s) \<longrightarrow>
        process_row flt sc (Some over_num, ctext) s = s)
   \<and> (flt over_num = None \<and> e \<in> set (admitted (run flt sl en ps))
        \<and> fl_lt (Fin (- 1)) (position flt e) \<longrightarrow>
        process_row flt sc (Some over_num, ctext) (run flt sl en (ps @ qs)) = run flt sl en (ps @ qs))"
proof -
  have "process_row flt sc (Some over_num, ctext) (run flt sl en (ps @ qs)) = run flt sl en (ps @ qs)"
    if "flt over_num = None" and "e \<in> set (admitted (run flt sl en ps))"
      and "fl_lt (Fin (- 1)) (position flt e)"
  proof -
    from that(2,3) have "fl_lt (Fin (- 1)) (highest_over_seen (run flt sl en (ps @ qs)))"
      by (rule watermark_above_admitted)
    with that(1) show ?thesis by (rule sentinel_filtered)
  qed
  then show ?thesis
    using sentinel_value [of flt over_num] sentinel_below_nonnegative [of flt over_num x]
      sentinel_below_others [of flt over_num x]
      sentinel_filtered [of flt over_num s sc ctext]
    by blast
qed

theorem sentinel_ordering_witness:
  "py_float ''abc'' = None
   \<and> over_to_float py_float ''abc'' = Fin (- 1)
   \<and> over_to_float py_float ''49.2'' \<noteq> NaN
   \<and> \<not> fl_le (over_to_float py_float ''49.2'') (Fin (- 1))
   \<and> fl_le (Fin 0) (over_to_float py_float ''49.2'')
   \<and> fl_lt (over_to_float py_float ''abc'') (over_to_float py_float ''49.2'')
   \<and> fl_lt (Fin (- 1)) (highest_over_seen (run py_float set_order True [Some page_four]))
   \<and> process_row py_float ''NZ 251/4 (49.2)'' (Some ''abc'', ''OUT! clean bowled'')
        (run py_float set_order True [Some page_four])
      = run py_float set_order True [Some page_four]
   \<and> \<lparr>over = ''49.2'', commentary = ''FOUR! cracking shot'', result = ''4'', score = ''NZ 251/4 (49.2)''\<rparr>
        \<in> set (admitted (run py_float set_order True [Some page_four]))
   \<and> fl_lt (Fin (- 1)) (position py_float
        \<lparr>over = ''49.2'', commentary = ''FOUR! cracking shot'', result = ''4'', score = ''NZ 251/4 (49.2)''\<rparr>)
   \<and> process_row py_float ''NZ 251/4 (49.2)'' (Some ''abc'', ''OUT! clean bowled'')
        (run py_float set_order True ([Some page_four] @ [None, Some page_six]))
      = run py_float set_order True ([Some page_four] @ [None, Some page_six])"
proof -
  note T = sentinel_ordering [where flt = py_float and over_num = "''abc''"
      and x = "over_to_float py_float ''49.2''"
      and s = "run py_float set_order True [Some page_four]"
      and sc = "''NZ 251/4 (49.2)''" and ctext = "''OUT! clean bowled''"
      and e = "\<lparr>over = ''49.2'', commentary = ''FOUR! cracking shot'', result = ''4'', score = ''NZ 251/4 (49.2)''\<rparr>"
      and sl = set_order and en = True and ps = "[Some page_four]" and qs = "[None, Some page_six]"]
  have a: "fl_le (Fin 0) (over_to_float py_float ''49.2'')"
    by (simp add: over_to_float_def py_float_49_2 fl_le_def)
  have a1: "over_to_float py_float ''49.2'' \<noteq> NaN"
    by (simp add: over_to_float_def py_float_49_2)
  have a2: "\<not> fl_le (over_to_float py_float ''49.2'') (Fin (- 1))"
    by (simp add: over_to_float_def py_float_49_2 fl_le_def)
  have b: "fl_lt (Fin (- 1)) (highest_over_seen (run py_float set_order True [Some page_four]))"
    by (simp add: run_page_four)
  have c: "\<lparr>over = ''49.2'', commentary = ''FOUR! cracking shot'', result = ''4'', score = ''NZ 251/4 (49.2)''\<rparr>
        \<in> set (admitted (run py_float set_order True [Some page_four]))"
    by (simp add: run_page_four)
  have d: "fl_lt (Fin (- 1)) (position py_float
        \<lparr>over = ''49.2'', commentary = ''FOUR! cracking shot'', result = ''4'', score = ''NZ 251/4 (49.2)''\<rparr>)"
    by (simp add: position_def over_to_float_def py_float_49_2)
  from T py_float_abc a a1 a2 b c d show ?thesis by blast
qed

lemma py_float_minus_1: "py_float ''-1'' = Some (Fin (- 1))"
  by (simp add: float_defs)

text \<open>
  The claim as stated fails on the order: \<open>float\<close> parses the texts -5, -1 and nan, and
  the sentinel is below none of the positions they yield. It fails on the initial state
  too, where the watermark is the sentinel itself: an unparseable row is admitted there.
\<close>

theorem sentinel_ordering_counterexample:
  "py_float ''abc'' = None
   \<and> py_float ''-5'' = Some (Fin (- 5))
   \<and> fl_lt (over_to_float py_float ''-5'') (over_to_float py_float ''abc'')
   \<and> py_float ''-1'' = Some (Fin (- 1))
   \<and> \<not> fl_lt (over_to_float py_float ''abc'') (over_to_float py_float ''-1'')
   \<and> py_float ''nan'' = Some NaN
   \<and> \<not> fl_lt (over_to_float py_float ''abc'') (over_to_float py_float ''nan'')
   \<and> highest_over_seen init_vars = over_to_float py_float ''abc''
   \<and> admitted (process_row py_float ''NZ 0/1 (0.1)'' (Some ''abc'', ''OUT! clean bowled'') init_vars)
      = [\<lparr>over = ''abc'', commentary = ''OUT! clean bowled'', result = ''wicket'', score = ''NZ 0/1 (0.1)''\<rparr>]"
  by (simp add: py_float_abc py_float_minus_5 py_float_minus_1 py_float_nan over_to_float_def
      process_row_def commentary_id_def init_vars_def extract_result_out fl_gt_def Let_def)

subsection \<open>An unparseable over number on the first page\<close>

text \<open>
  Claim C6 fails on the code at this page. The over text does not parse, the sentinel
  -1 is not below the initial watermark -1, and the row is admitted: its identifier
  enters the seen set and the event is dispatched.
\<close>

theorem unparseable_admitted_at_start:
  "py_float '''' = None
   \<and> admitted (run py_float set_order True [Some page_no_over])
      = [\<lparr>over = '''', commentary = ''OUT! clean bowled'', result = ''wicket'', score = ''NZ 0/1 (0.1)''\<rparr>]
   \<and> seen_commentaries (run py_float set_order True [Some page_no_over]) = {'' - OUT! clean bowled''}
   \<and> dispatched (run py_float set_order True [Some page_no_over])
      = [\<lparr>over = '''', commentary = ''OUT! clean bowled'', result = ''wicket'', score = ''NZ 0/1 (0.1)''\<rparr>]
   \<and> highest_over_seen (run py_float set_order True [Some page_no_over]) = Fin (- 1)"
  by (simp add: loop_defs page_no_over_def py_float_empty extract_result_out)

section \<open>Properties of the page fetcher\<close>

lemma fetch_page_cases:
  "fetch_page get =
     (case get 0 of
        Text t \<Rightarrow> \<lparr>returned = Some t, slept = [], requests_made = 1\<rparr>
      | RequestException \<Rightarrow>
          (case get 1 of
             Text t \<Rightarrow> \<lparr>returned = Some t, slept = [2], requests_made = 2\<rparr>
           | RequestException \<Rightarrow>
               (case get 2 of
                  Text t \<Rightarrow> \<lparr>returned = Some t, slept = [2, 4], requests_made = 3\<rparr>
                | RequestException \<Rightarrow> \<lparr>returned = None, slept = [2, 4], requests_made = 3\<rparr>)))"
proof -
  have s1: "fetch_loop get (Suc 0) 4 [2] =
     (case get (Suc 0) of
        Text t \<Rightarrow> \<lparr>returned = Some t, slept = [2], requests_made = Suc (Suc 0)\<rparr>
      | RequestException \<Rightarrow> fetch_loop get (Suc (Suc 0)) 8 [2, 4])"
    by (subst fetch_loop.simps) (simp add: max_retries_def split: response.splits)
  have s2: "fetch_loop get (Suc (Suc 0)) 8 [2, 4] =
     (case get (Suc (Suc 0)) of
        Text t \<Rightarrow> \<lparr>returned = Some t, slept = [2, 4], requests_made = Suc (Suc (Suc 0))\<rparr>
      | RequestException \<Rightarrow> \<lparr>returned = None, slept = [2, 4], requests_made = Suc (Suc (Suc 0))\<rparr>)"
    by (subst fetch_loop.simps) (simp add: max_retries_def split: response.splits)
  have s0: "fetch_loop get 0 2 [] =
     (case get 0 of
        Text t \<Rightarrow> \<lparr>returned = Some t, slept = [], requests_made = Suc 0\<rparr>
      | RequestException \<Rightarrow> fetch_loop get (Suc 0) 4 [2])"
    by (subst fetch_loop.simps) (simp add: max_retries_def split: response.splits)
  have n: "(1::nat) = Suc 0"
    by simp
  show ?thesis
    unfolding fetch_page_def s0 s1 s2
    by (simp only: n [symmetric] Suc_1 numeral_3_eq_3 [symmetric] split: response.splits) simp
qed


text \<open>
  Claim C8. The fetcher makes at most 3 requests. It sleeps only after a failed request
  that is not the last one: 2 after the first failure, 4 after the second, so the
  delays slept are strictly increasing and there is one fewer of them than requests.
  It returns the text of the first request that succeeds, and when all three requests
  fail it returns \<open>None\<close>, as a value.
\<close>

theorem fetch_page_retries:
  "requests_made (fetch_page get) \<le> 3
   \<and> (get 0 = Text t \<longrightarrow>
        fetch_page get = \<lparr>returned = Some t, slept = [], requests_made = 1\<rparr>)
   \<and> (get 0 = RequestException \<and> get 1 = Text t \<longrightarrow>
        fetch_page get = \<lparr>returned = Some t, slept = [2], requests_made = 2\<rparr>)
   \<and> (get 0 = RequestException \<and> get 1 = RequestException \<and> get 2 = Text t \<longrightarrow>
        fetch_page get = \<lparr>returned = Some t, slept = [2, 4], requests_made = 3\<rparr>)
   \<and> (get 0 = RequestException \<and> get 1 = RequestException \<and> get 2 = RequestException \<longrightarrow>
        fetch_page get = \<lparr>returned = None, slept = [2, 4], requests_made = 3\<rparr>)
   \<and> sorted_wrt (<) (slept (fetch_page get))
   \<and> length (slept (fetch_page get)) + 1 = requests_made (fetch_page get)
   \<and> (returned (fetch_page get) = None \<longleftrightarrow>
        get 0 = RequestException \<and> get 1 = RequestException \<and> get 2 = RequestException)"
  unfolding fetch_page_cases by (auto split: response.splits)

theorem fetch_page_retries_witness:
  "(\<lambda>k::nat. if k < 2 then RequestException else Text ''<html>'') 0 = RequestException
   \<and> (\<lambda>k::nat. if k < 2 then RequestException else Text ''<html>'') (1::nat) = RequestException
   \<and> (\<lambda>k::nat. if k < 2 then RequestException else Text ''<html>'') (2::nat) = Text ''<html>''
   \<and> fetch_page (\<lambda>k::nat. if k < 2 then RequestException else Text ''<html>'')
      = \<lparr>returned = Some ''<html>'', slept = [2, 4], requests_made = 3\<rparr>"
  using fetch_page_retries [of "\<lambda>k::nat. if k < 2 then RequestException else Text ''<html>''" "''<html>''"]
  by simp

section \<open>Properties of the clock\<close>

lemma dispatching_cycle_waits:
  "dispatched (cycle flt sl en (Some doc) s) \<noteq> dispatched s \<Longrightarrow>
   now (snd (timed_cycle flt sl en fetch_time job_time (Some doc) (s, c)))
     = now (begin_cycle c) + fetch_time + job_time"
  by (simp add: timed_cycle_def Let_def executor_block_def)

lemma timed_first_cycle:
  "timed_cycle py_float sl True 1 job_time (Some page_four) (init_vars, \<lparr>now = 100, last_fetch_time = 0\<rparr>)
   = (run py_float sl True [Some page_four], \<lparr>now = 101 + job_time, last_fetch_time = 100\<rparr>)"
proof -
  have c: "cycle py_float sl True (Some page_four) init_vars = run py_float sl True [Some page_four]"
    by (simp add: run_def run_from_def)
  show ?thesis
    unfolding timed_cycle_def Let_def fst_conv snd_conv c
    by (simp add: run_page_four init_vars_def begin_cycle_def min_fetch_interval_def executor_block_def)
qed

text \<open>
  Claim C9 fails on the code. The loop starts at time 100 and fetches the first page in
  1 time unit; the page's event is dispatched. When \<open>send_to_discord\<close> returns at once,
  the next iteration starts its fetch at 103, after the minimum interval. When
  \<open>send_to_discord\<close> takes 60 time units, the loop waits for it at the end of the \<open>with\<close>
  block, and the next iteration starts its fetch at 161.
\<close>

theorem slow_notification_delays_next_cycle:
  "last_fetch_time (snd (timed_cycle py_float set_order True 1 0 (Some page_four)
      (timed_cycle py_float set_order True 1 0 (Some page_four)
         (init_vars, \<lparr>now = 100, last_fetch_time = 0\<rparr>)))) = 103
   \<and> last_fetch_time (snd (timed_cycle py_float set_order True 1 60 (Some page_four)
      (timed_cycle py_float set_order True 1 60 (Some page_four)
         (init_vars, \<lparr>now = 100, last_fetch_time = 0\<rparr>)))) = 161"
  unfolding timed_first_cycle
  by (simp add: timed_cycle_def Let_def begin_cycle_def min_fetch_interval_def executor_block_def)

end
